theory Spec2Isabelle
  imports Complex_Main "HOL-Library.Char_ord" "HOL-Library.List_Lexorder"
begin

section \<open>Data model\<close>

text \<open>
  The notebooks work on Python strings, here lists of characters (nothing depends on
  the character set). A symbol (token) is itself a Python string: the character
  tokenizer yields one-character strings, the reserved symbol is the string \<open><unk>\<close>. An exception raised by the Python code is a value of \<open>error\<close>, and a function
  that can raise returns \<open>error + result\<close>.
\<close>

type_synonym symbol = string

datatype error = RuntimeError | IndexError

text \<open>
  \<open>torchtext.vocab.Vocab\<close> is used through two attributes: \<open>itos\<close>, a Python list of
  symbols, and \<open>stoi\<close>, a dictionary from symbols to ids.
\<close>

record vocab =
  itos :: "symbol list"
  stoi :: "symbol \<rightharpoonup> nat"

definition vocab_size :: "vocab \<Rightarrow> nat" where
  \<comment> \<open>\<open>vocab_size = len(vocab)\<close>\<close>
  "vocab_size voc = length (itos voc)"

definition UNK :: symbol where
  "UNK = ''<unk>''"

definition example_vocab :: vocab where
  \<comment> \<open>The vocabulary \<open>{a:1, b:2, ' ':3, <unk>:0}\<close> of the end-to-end example.\<close>
  "example_vocab =
     \<lparr> itos = [UNK, ''a'', ''b'', '' ''],
       stoi = [UNK \<mapsto> 0, ''a'' \<mapsto> 1, ''b'' \<mapsto> 2, '' '' \<mapsto> 3] \<rparr>"

section \<open>Encoding and decoding\<close>

definition stoi_get :: "vocab \<Rightarrow> symbol \<Rightarrow> nat" where
  \<comment> \<open>Modelled from the spec: the dictionary class behind \<open>vocab.stoi\<close> belongs to torchtext
      and is not part of the sources; \<open>vocab.stoi[s]\<close> gives the id of a symbol that is
      present and the reserved unknown id 0 for a symbol that is absent.\<close>
  "stoi_get voc s = (case stoi voc s of Some i \<Rightarrow> i | None \<Rightarrow> 0)"

definition char_tokenizer :: "string \<Rightarrow> symbol list" where
  \<comment> \<open>\<open>def char_tokenizer(words): return list(words)\<close>\<close>
  "char_tokenizer words = map (\<lambda>c. [c]) words"

definition encode :: "vocab \<Rightarrow> ('a \<Rightarrow> symbol list) \<Rightarrow> 'a \<Rightarrow> nat list" where
  \<comment> \<open>\<open>def encode(x): return [vocab.stoi[s] for s in tokenizer(x)]\<close>, with the vocabulary
      and the tokenizer passed as the generative notebook passes them
      (\<open>encode(x,voc=vocab,tokenizer=char_tokenizer)\<close>).\<close>
  "encode voc tokenizer x = map (stoi_get voc) (tokenizer x)"

definition enc :: "vocab \<Rightarrow> string \<Rightarrow> nat list" where
  \<comment> \<open>\<open>def enc(x): return torch.LongTensor(encode(x,voc=vocab,tokenizer=char_tokenizer))\<close>\<close>
  "enc voc x = encode voc char_tokenizer x"

definition enc_list :: "vocab \<Rightarrow> symbol list \<Rightarrow> nat list" where
  \<comment> \<open>\<open>enc(chars)\<close> on a list of one-character strings: \<open>list(chars)\<close> is the list again.\<close>
  "enc_list voc chars = encode voc (\<lambda>cs. cs) chars"

definition itos_get :: "vocab \<Rightarrow> int \<Rightarrow> error + symbol" where
  \<comment> \<open>\<open>vocab.itos[nc]\<close> on a Python list: an index from \<open>-len\<close> up to \<open>-1\<close> counts from
      the end, an index beyond either end raises IndexError.\<close>
  "itos_get voc i =
     (if - int (length (itos voc)) \<le> i \<and> i < 0
        then Inr (itos voc ! nat (int (length (itos voc)) + i))
      else if 0 \<le> i \<and> i < int (length (itos voc))
        then Inr (itos voc ! nat i)
      else Inl IndexError)"

definition slice :: "'a list \<Rightarrow> nat \<Rightarrow> nat \<Rightarrow> 'a list" where
  \<comment> \<open>\<open>s[i:j]\<close> for non-negative bounds: both bounds are clamped to the length, and the
      result is empty when \<open>j \<le> i\<close>.\<close>
  "slice xs i j = take (j - i) (drop i xs)"

section \<open>Training windows\<close>

definition zeros :: "int \<Rightarrow> int \<Rightarrow> error + nat list list" where
  \<comment> \<open>\<open>torch.zeros(n, m, dtype=torch.long)\<close>: a negative dimension is refused.\<close>
  "zeros n m =
     (if n < 0 \<or> m < 0 then Inl RuntimeError
      else Inr (replicate (nat n) (replicate (nat m) 0)))"

definition set_row :: "nat list list \<Rightarrow> nat \<Rightarrow> nat list \<Rightarrow> error + nat list list" where
  \<comment> \<open>\<open>t[i] = row\<close>: the row index must exist; the value must have the row's length, or
      one element, which is then broadcast.\<close>
  "set_row t i row =
     (if length t \<le> i then Inl IndexError
      else if length row = length (t ! i) then Inr (t[i := row])
      else if length row = 1 then Inr (t[i := replicate (length (t ! i)) (hd row)])
      else Inl RuntimeError)"

fun get_batch_loop ::
  "vocab \<Rightarrow> string \<Rightarrow> nat \<Rightarrow> nat list \<Rightarrow> nat list list \<times> nat list list
     \<Rightarrow> error + (nat list list \<times> nat list list)" where
  \<comment> \<open>\<open>for i in range(len(s)-nchars): ins[i] = enc(s[i:i+nchars]);
      outs[i] = enc(s[i+1:i+nchars+1])\<close>\<close>
  "get_batch_loop voc s nchars [] (ins, outs) = Inr (ins, outs)"
| "get_batch_loop voc s nchars (i # is) (ins, outs) =
     (case set_row ins i (enc voc (slice s i (i + nchars))) of
        Inl e \<Rightarrow> Inl e
      | Inr ins' \<Rightarrow>
          (case set_row outs i (enc voc (slice s (i + 1) (i + nchars + 1))) of
             Inl e \<Rightarrow> Inl e
           | Inr outs' \<Rightarrow> get_batch_loop voc s nchars is (ins', outs')))"

definition get_batch ::
  "vocab \<Rightarrow> string \<Rightarrow> int \<Rightarrow> error + (nat list list \<times> nat list list)" where
  \<comment> \<open>\<open>def get_batch(s,nchars=nchars)\<close>: both tensors are allocated with
      \<open>len(s)-nchars\<close> rows before the loop runs.\<close>
  "get_batch voc s nchars =
     (case zeros (int (length s) - nchars) nchars of
        Inl e \<Rightarrow> Inl e
      | Inr ins \<Rightarrow>
          (case zeros (int (length s) - nchars) nchars of
             Inl e \<Rightarrow> Inl e
           | Inr outs \<Rightarrow>
               get_batch_loop voc s (nat nchars) [0..<nat (int (length s) - nchars)]
                 (ins, outs)))"

definition window_in :: "vocab \<Rightarrow> string \<Rightarrow> nat \<Rightarrow> nat \<Rightarrow> nat list" where
  \<comment> \<open>The row the loop stores in \<open>ins[i]\<close>.\<close>
  "window_in voc s w i = enc voc (slice s i (i + w))"

definition window_out :: "vocab \<Rightarrow> string \<Rightarrow> nat \<Rightarrow> nat \<Rightarrow> nat list" where
  \<comment> \<open>The row the loop stores in \<open>outs[i]\<close>.\<close>
  "window_out voc s w i = enc voc (slice s (i + 1) (i + w + 1))"

section \<open>Text generation\<close>

text \<open>
  A network is any callable \<open>net(x, s)\<close> from a row of ids and an optional state to the
  logits of every position and the new state; the batch dimension of size one that the
  notebook adds with \<open>view(1,-1)\<close> and removes with \<open>out[0]\<close> is left implicit. Logits are
  values of a linearly ordered type.
\<close>

type_synonym ('f, 's) net = "nat list \<Rightarrow> 's option \<Rightarrow> error + ('f list list \<times> 's)"

definition one_hot :: "nat \<Rightarrow> nat \<Rightarrow> nat list" where
  \<comment> \<open>\<open>torch.nn.functional.one_hot(x,vocab_size)\<close> at one position.\<close>
  "one_hot V i = map (\<lambda>j. if j = i then 1 else 0) [0..<V]"

definition forward ::
  "(nat list list \<Rightarrow> 's option \<Rightarrow> error + ('h list \<times> 's)) \<Rightarrow> ('h \<Rightarrow> 'f list) \<Rightarrow> nat
     \<Rightarrow> ('f, 's) net" where
  \<comment> \<open>\<open>LSTMGenerator.forward\<close>: \<open>x = one_hot(x,vocab_size); x,s = self.rnn(x,s);
      return self.fc(x),s\<close>. The layers are parameters: \<open>self.rnn\<close> (\<open>torch.nn.LSTM\<close>,
      which can raise, as it does on a sequence of no position) and \<open>self.fc\<close> (applied at
      every position); \<open>one_hot\<close> refuses an id that is not below the number of classes.\<close>
  "forward rnn fc V x s =
     (if \<exists>i \<in> set x. V \<le> i then Inl RuntimeError
      else (case rnn (map (one_hot V) x) s of
              Inl e \<Rightarrow> Inl e
            | Inr (h, s') \<Rightarrow> Inr (map fc h, s')))"

fun argmax_from :: "'f::linorder \<Rightarrow> nat \<Rightarrow> nat \<Rightarrow> 'f list \<Rightarrow> nat" where
  "argmax_from best bi i [] = bi"
| "argmax_from best bi i (x # xs) =
     (if best < x then argmax_from x i (Suc i) xs else argmax_from best bi (Suc i) xs)"

definition argmax :: "'f::linorder list \<Rightarrow> error + nat" where
  \<comment> \<open>Modelled from the spec: \<open>torch.argmax\<close> is a function of the tensor library; it gives
      the id with the maximum logit value, ties broken by the lowest id. An empty tensor
      has no maximum and the call raises IndexError.\<close>
  "argmax row = (case row of [] \<Rightarrow> Inl IndexError | x # xs \<Rightarrow> Inr (argmax_from x 0 1 xs))"

definition last_row :: "'a list \<Rightarrow> error + 'a" where
  \<comment> \<open>\<open>out[0][-1]\<close>: the logits of the last position; there is none when the network
      was run on no position.\<close>
  "last_row out = (if out = [] then Inl IndexError else Inr (last out))"

fun generate_loop ::
  "('f::linorder, 's) net \<Rightarrow> vocab \<Rightarrow> nat \<Rightarrow> symbol list \<times> 'f list list \<times> 's
     \<Rightarrow> error + symbol list" where
  \<comment> \<open>\<open>for i in range(size): nc = torch.argmax(out[0][-1]); chars.append(vocab.itos[nc]);
      out, s = net(nc.view(1,-1),s)\<close>\<close>
  "generate_loop net voc 0 (chars, out, s) = Inr chars"
| "generate_loop net voc (Suc n) (chars, out, s) =
     (case last_row out of
        Inl e \<Rightarrow> Inl e
      | Inr row \<Rightarrow>
          (case argmax row of
             Inl e \<Rightarrow> Inl e
           | Inr nc \<Rightarrow>
               (case itos_get voc (int nc) of
                  Inl e \<Rightarrow> Inl e
                | Inr ch \<Rightarrow>
                    (case net [nc] (Some s) of
                       Inl e \<Rightarrow> Inl e
                     | Inr (out', s') \<Rightarrow> generate_loop net voc n (chars @ [ch], out', s')))))"

definition generate :: "('f::linorder, 's) net \<Rightarrow> vocab \<Rightarrow> int \<Rightarrow> string \<Rightarrow> error + string" where
  \<comment> \<open>\<open>def generate(net,size=100,start='today ')\<close>; \<open>range(size)\<close> is empty for a
      non-positive size.\<close>
  "generate net voc sz start =
     (let chars = char_tokenizer start
      in case net (enc_list voc chars) None of
           Inl e \<Rightarrow> Inl e
         | Inr (out, s) \<Rightarrow>
             (case generate_loop net voc (nat sz) (chars, out, s) of
                Inl e \<Rightarrow> Inl e
              | Inr chars' \<Rightarrow> Inr (concat chars')))"

text \<open>
  The float operations of the tensor library that \<open>generate_soft\<close> calls are parameters:
  \<open>Tensor.div\<close>, \<open>Tensor.exp\<close> (both element-wise) and \<open>torch.multinomial\<close>, which
  draws one index from a vector of weights and advances the state of the random
  generator, or raises.
\<close>

record ('f, 'g) torch_ops =
  t_div :: "'f \<Rightarrow> 'f \<Rightarrow> 'f"
  t_exp :: "'f \<Rightarrow> 'f"
  t_multinomial :: "'f list \<Rightarrow> 'g \<Rightarrow> error + (nat \<times> 'g)"

fun generate_soft_loop ::
  "('f, 'g) torch_ops \<Rightarrow> ('f, 's) net \<Rightarrow> vocab \<Rightarrow> 'f \<Rightarrow> nat
     \<Rightarrow> symbol list \<times> 'f list list \<times> 's \<times> 'g \<Rightarrow> error + symbol list" where
  \<comment> \<open>\<open>for i in range(size): out_dist = out[0][-1].div(temperature).exp();
      nc = torch.multinomial(out_dist,1)[0]; chars.append(vocab.itos[nc]);
      out, s = net(nc.view(1,-1),s)\<close>\<close>
  "generate_soft_loop ops net voc temperature 0 (chars, out, s, g) = Inr chars"
| "generate_soft_loop ops net voc temperature (Suc n) (chars, out, s, g) =
     (case last_row out of
        Inl e \<Rightarrow> Inl e
      | Inr row \<Rightarrow>
          (let out_dist = map (\<lambda>x. t_exp ops (t_div ops x temperature)) row
           in case t_multinomial ops out_dist g of
                Inl e \<Rightarrow> Inl e
              | Inr (nc, g') \<Rightarrow>
                  (case itos_get voc (int nc) of
                     Inl e \<Rightarrow> Inl e
                   | Inr ch \<Rightarrow>
                       (case net [nc] (Some s) of
                          Inl e \<Rightarrow> Inl e
                        | Inr (out', s') \<Rightarrow>
                            generate_soft_loop ops net voc temperature n
                              (chars @ [ch], out', s', g')))))"

definition generate_soft ::
  "('f, 'g) torch_ops \<Rightarrow> ('f, 's) net \<Rightarrow> vocab \<Rightarrow> 'g \<Rightarrow> int \<Rightarrow> string \<Rightarrow> 'f
     \<Rightarrow> error + string" where
  \<comment> \<open>\<open>def generate_soft(net,size=100,start='today ',temperature=1.0)\<close>, with the state
      \<open>g\<close> of the random generator made explicit.\<close>
  "generate_soft ops net voc g sz start temperature =
     (let chars = char_tokenizer start
      in case net (enc_list voc chars) None of
           Inl e \<Rightarrow> Inl e
         | Inr (out, s) \<Rightarrow>
             (case generate_soft_loop ops net voc temperature (nat sz) (chars, out, s, g) of
                Inl e \<Rightarrow> Inl e
              | Inr chars' \<Rightarrow> Inr (concat chars')))"

text \<open>
  The greedy choice in the words of the specification: an id with the maximum logit
  value, the lowest such id; and a run of greedy choices, each fed back into the network
  together with the current state.
\<close>

definition is_argmax :: "'f::linorder list \<Rightarrow> nat \<Rightarrow> bool" where
  "is_argmax row i \<longleftrightarrow>
     i < length row \<and> (\<forall>j < length row. row ! j \<le> row ! i) \<and> (\<forall>j < i. row ! j < row ! i)"

fun greedy_trace :: "('f::linorder, 's) net \<Rightarrow> 'f list list \<times> 's \<Rightarrow> nat list \<Rightarrow> bool" where
  "greedy_trace net (out, s) [] = True"
| "greedy_trace net (out, s) (i # is) =
     (out \<noteq> [] \<and> is_argmax (last out) i \<and>
      (case net [i] (Some s) of Inl e \<Rightarrow> False | Inr st \<Rightarrow> greedy_trace net st is))"

definition net_ok :: "nat \<Rightarrow> ('f, 's) net \<Rightarrow> bool" where
  \<comment> \<open>The contract of the sequence model: on a non-empty row of ids below \<open>V\<close> it
      returns one logits vector of size \<open>V\<close> per position.\<close>
  "net_ok V net \<longleftrightarrow>
     (\<forall>xs s. xs \<noteq> [] \<and> (\<forall>i \<in> set xs. i < V) \<longrightarrow>
        (\<exists>out s'. net xs s = Inr (out, s') \<and> length out = length xs \<and>
           (\<forall>row \<in> set out. length row = V)))"

definition vocab_ok :: "vocab \<Rightarrow> bool" where
  \<comment> \<open>The ids of the vocabulary lie in \<open>[0, vocab_size)\<close>, the unknown id 0 included.\<close>
  "vocab_ok voc \<longleftrightarrow>
     0 < vocab_size voc \<and> (\<forall>s i. stoi voc s = Some i \<longrightarrow> i < vocab_size voc)"

definition sampler_ok :: "nat \<Rightarrow> ('f, 'g) torch_ops \<Rightarrow> 'f \<Rightarrow> bool" where
  \<comment> \<open>The sampler accepts the weights computed from any logits vector of size \<open>V\<close> at this
      temperature and draws an index below \<open>V\<close>.\<close>
  "sampler_ok V ops temperature \<longleftrightarrow>
     (\<forall>row g. length row = V \<longrightarrow>
        (\<exists>i g'. t_multinomial ops (map (\<lambda>x. t_exp ops (t_div ops x temperature)) row) g
                   = Inr (i, g') \<and> i < V))"

text \<open>
  The sampled choice in the words of the specification: the weights are the logits
  divided by the temperature and exponentiated, element by element; a run of sampled
  steps hands the weights of the last logits vector to the sampler and feeds the drawn
  id back into the network together with the current state.
\<close>

definition soft_weights :: "('f, 'g) torch_ops \<Rightarrow> 'f \<Rightarrow> 'f list \<Rightarrow> 'f list" where
  "soft_weights ops temperature logits = map (\<lambda>x. t_exp ops (t_div ops x temperature)) logits"

fun sampled_trace ::
  "('f, 'g) torch_ops \<Rightarrow> ('f, 's) net \<Rightarrow> 'f \<Rightarrow> 'f list list \<times> 's \<times> 'g
     \<Rightarrow> ('f list \<times> nat) list \<Rightarrow> bool" where
  "sampled_trace ops net temperature (out, s, g) [] = True"
| "sampled_trace ops net temperature (out, s, g) ((w, i) # tr) =
     (out \<noteq> [] \<and> w = soft_weights ops temperature (last out) \<and>
      (case t_multinomial ops w g of
         Inl e \<Rightarrow> False
       | Inr (j, g') \<Rightarrow>
           j = i \<and>
           (case net [i] (Some s) of
              Inl e \<Rightarrow> False
            | Inr (out', s') \<Rightarrow> sampled_trace ops net temperature (out', s', g') tr)))"

definition step_law :: "real list \<Rightarrow> real \<Rightarrow> real list option" where
  \<comment> \<open>Modelled from the spec: the law of \<open>torch.multinomial\<close>, a function of the tensor
      library: the probability of index \<open>i\<close> is \<open>weight[i] / sum(weights)\<close>; here for the
      weights \<open>exp(logits / temperature)\<close> over the reals (float rounding and overflow
      are not modelled). There is no law for no logits, or at temperature 0, where the
      division gives no finite weights.\<close>
  "step_law logits temperature =
     (if logits = [] \<or> temperature = 0 then None
      else (let weights = map (\<lambda>x. exp (x / temperature)) logits
            in Some (map (\<lambda>w. w / sum_list weights) weights)))"

definition softmax :: "real list \<Rightarrow> real list" where
  \<comment> \<open>The softmax of the logits, over the reals.\<close>
  "softmax logits = map (\<lambda>x. exp x / (\<Sum>y\<leftarrow>logits. exp y)) logits"

definition const_b_net :: "(real, unit) net" where
  \<comment> \<open>The model of the end-to-end example: at every position id 2 has the highest logit.\<close>
  "const_b_net xs s = Inr (map (\<lambda>x. [0, 0, 1, 0]) xs, ())"

definition real_ops :: "(real, nat) torch_ops" where
  \<comment> \<open>An instance for examples: real arithmetic, which stands for float arithmetic
      only at a temperature other than 0 and without rounding or overflow, and a sampler
      that refuses weights that are not all positive and otherwise steps through the
      indices.\<close>
  "real_ops =
     \<lparr> t_div = (\<lambda>x t. x / t), t_exp = exp,
       t_multinomial = (\<lambda>w g. if w = [] \<or> (\<exists>x \<in> set w. x \<le> 0) then Inl RuntimeError
                               else Inr (g mod length w, Suc g)) \<rparr>"

section \<open>Building the vocabulary\<close>

fun counter_add :: "(symbol \<times> nat) list \<Rightarrow> symbol \<Rightarrow> (symbol \<times> nat) list" where
  \<comment> \<open>One step of \<open>collections.Counter.update\<close>: the count of a known symbol grows in
      place, a new symbol is appended with count 1 (a dictionary keeps insertion order).\<close>
  "counter_add [] s = [(s, 1)]"
| "counter_add ((t, n) # c) s =
     (if t = s then (t, Suc n) # c else (t, n) # counter_add c s)"

definition counter_update :: "(symbol \<times> nat) list \<Rightarrow> symbol list \<Rightarrow> (symbol \<times> nat) list" where
  \<comment> \<open>\<open>counter.update(tokens)\<close>\<close>
  "counter_update c toks = foldl counter_add c toks"

definition count_corpus ::
  "(string \<Rightarrow> symbol list) \<Rightarrow> (nat \<times> string) list \<Rightarrow> (symbol \<times> nat) list" where
  \<comment> \<open>\<open>counter = collections.Counter();
      for (label, line) in train_dataset: counter.update(tokenizer(line))\<close>\<close>
  "count_corpus tokenizer train_dataset =
     foldl (\<lambda>counter (label, line). counter_update counter (tokenizer line)) [] train_dataset"

definition by_count :: "symbol \<times> nat \<Rightarrow> int" where
  \<comment> \<open>The sorting key of descending frequency.\<close>
  "by_count = (\<lambda>(s, n). - int n)"

definition PAD :: symbol where
  "PAD = ''<pad>''"

definition specials :: "symbol list" where
  \<comment> \<open>The default \<open>specials=('<unk>', '<pad>')\<close> of the constructor.\<close>
  "specials = [UNK, PAD]"

definition Vocab :: "(symbol \<times> nat) list \<Rightarrow> vocab" where
  \<comment> \<open>\<open>torchtext.vocab.Vocab(counter)\<close> with its default arguments. The class is
      torchtext's and not part of the sources; this is what its constructor does:
      \<open>itos\<close> starts with the specials; the specials are deleted from the counter; the
      remaining entries are sorted by symbol and then, stably, by descending frequency,
      and their symbols appended; \<open>stoi\<close> is the reverse dictionary of \<open>itos\<close> (which has
      no duplicates). The ids recorded in the notebook (space 2, e 3, a 4) start at 2
      accordingly. Strings are ordered as Python orders them, lexicographically by
      character code.\<close>
  "Vocab counter =
     (let counted = filter (\<lambda>(s, n). s \<notin> set specials) counter;
          words_and_frequencies = sort_key by_count (sort_key fst counted);
          symbols = specials @ map fst words_and_frequencies
      in \<lparr> itos = symbols, stoi = map_of (zip symbols [0..<length symbols]) \<rparr>)"

definition counted :: "(symbol \<times> nat) list \<Rightarrow> (symbol \<times> nat) list" where
  \<comment> \<open>The entries of the counter without the specials, sorted by symbol: the list the
      constructor then sorts by descending frequency.\<close>
  "counted c = sort_key fst (filter (\<lambda>(s, n). s \<notin> set specials) c)"

definition build :: "(string \<Rightarrow> symbol list) \<Rightarrow> (nat \<times> string) list \<Rightarrow> vocab" where
  \<comment> \<open>\<open>vocab = torchtext.vocab.Vocab(counter)\<close> after the counting loop.\<close>
  "build tokenizer train_dataset = Vocab (count_corpus tokenizer train_dataset)"

definition corpus_symbols :: "(string \<Rightarrow> symbol list) \<Rightarrow> (nat \<times> string) list \<Rightarrow> symbol list" where
  \<comment> \<open>Every symbol occurrence of the corpus, in reading order.\<close>
  "corpus_symbols tokenizer train_dataset =
     concat (map (\<lambda>(label, line). tokenizer line) train_dataset)"

fun first_pos :: "'a list \<Rightarrow> 'a \<Rightarrow> nat" where
  \<comment> \<open>The position at which a symbol is first seen (the length when it never is).\<close>
  "first_pos [] a = 0"
| "first_pos (x # xs) a = (if x = a then 0 else Suc (first_pos xs a))"

definition example_dataset :: "(nat \<times> string) list" where
  "example_dataset = [(3, ''ba''), (1, ''b a'')]"

section \<open>Properties of encoding\<close>

lemma length_enc: "length (enc voc s) = length s"
  by (simp add: enc_def encode_def char_tokenizer_def)

lemma enc_slice: "enc voc (slice s i j) = slice (enc voc s) i j"
  by (simp add: enc_def encode_def char_tokenizer_def slice_def take_map drop_map)

lemma length_slice: "j \<le> length xs \<Longrightarrow> length (slice xs i j) = j - i"
  by (simp add: slice_def)

lemma slice_nth: "j \<le> length xs \<Longrightarrow> k < j - i \<Longrightarrow> slice xs i j ! k = xs ! (i + k)"
  by (simp add: slice_def)

lemma concat_char_tokenizer: "concat (char_tokenizer s) = s"
  by (induction s) (simp_all add: char_tokenizer_def)

lemma enc_list_char_tokenizer: "enc_list voc (char_tokenizer s) = enc voc s"
  by (simp add: enc_list_def enc_def encode_def)

lemma example_vocab_size: "vocab_size example_vocab = 4"
  by (simp add: vocab_size_def example_vocab_def)

text \<open>
  C6. \<open>encode\<close> is a total function of any input: its result has one id per symbol the
  tokenizer produced, in the same order; the id at a position is the \<open>stoi\<close> entry of the
  symbol at that position when the vocabulary has one, and the unknown id 0 otherwise.
\<close>

theorem encode_total_order_preserving:
  "(\<exists>ids. encode voc tokenizer x = ids) \<and>
   length (encode voc tokenizer x) = length (tokenizer x) \<and>
   (\<forall>i < length (tokenizer x).
      (\<forall>k. stoi voc (tokenizer x ! i) = Some k \<longrightarrow> encode voc tokenizer x ! i = k) \<and>
      (stoi voc (tokenizer x ! i) = None \<longrightarrow> encode voc tokenizer x ! i = 0))"
  by (simp add: encode_def stoi_get_def)

text \<open>
  On the example vocabulary the string \<open>abz\<close> has the three symbols a, b and z; a and b
  are present, z is absent, and the encoding is 1, 2, 0.
\<close>

theorem encode_total_order_preserving_witness:
  "length (char_tokenizer ''abz'') = 3 \<and>
   stoi example_vocab (char_tokenizer ''abz'' ! 0) = Some 1 \<and>
   stoi example_vocab (char_tokenizer ''abz'' ! 1) = Some 2 \<and>
   stoi example_vocab (char_tokenizer ''abz'' ! 2) = None \<and>
   length (encode example_vocab char_tokenizer ''abz'') = 3 \<and>
   encode example_vocab char_tokenizer ''abz'' ! 0 = 1 \<and>
   encode example_vocab char_tokenizer ''abz'' ! 1 = 2 \<and>
   encode example_vocab char_tokenizer ''abz'' ! 2 = 0"
proof -
  have h0: "stoi example_vocab (char_tokenizer ''abz'' ! 0) = Some 1"
    and h1: "stoi example_vocab (char_tokenizer ''abz'' ! 1) = Some 2"
    and h2: "stoi example_vocab (char_tokenizer ''abz'' ! 2) = None"
    and len: "length (char_tokenizer ''abz'') = 3"
    by (simp_all add: example_vocab_def char_tokenizer_def UNK_def)
  from encode_total_order_preserving [of example_vocab char_tokenizer "''abz''"]
  show ?thesis using h0 h1 h2 len by auto
qed

section \<open>Properties of decoding\<close>

lemma itos_get_in_range: "i < vocab_size voc \<Longrightarrow> itos_get voc (int i) = Inr (itos voc ! i)"
  by (simp add: itos_get_def vocab_size_def)

text \<open>
  C5, as the code has it. Decoding an id is the list lookup \<open>vocab.itos[id]\<close>. It fails,
  with IndexError, exactly when \<open>id < - vocab_size\<close> or \<open>id \<ge> vocab_size\<close>. For
  \<open>0 \<le> id < vocab_size\<close> it returns the symbol stored at that id. A negative id down to
  \<open>- vocab_size\<close> is not rejected: it is counted from the end of the list.
\<close>

theorem itos_get_range:
  "(itos_get voc i = Inl IndexError \<longleftrightarrow> i < - int (vocab_size voc) \<or> int (vocab_size voc) \<le> i) \<and>
   (0 \<le> i \<and> i < int (vocab_size voc) \<longrightarrow> itos_get voc i = Inr (itos voc ! nat i)) \<and>
   (- int (vocab_size voc) \<le> i \<and> i < 0 \<longrightarrow>
      itos_get voc i = Inr (itos voc ! nat (int (vocab_size voc) + i)))"
  by (auto simp: itos_get_def vocab_size_def)

text \<open>
  On the four-symbol example vocabulary id 2 decodes to b, id 4 raises, and id \<open>-4\<close>
  decodes to the first symbol.
\<close>

theorem itos_get_range_witness:
  "(0::int) \<le> 2 \<and> 2 < int (vocab_size example_vocab) \<and>
   - int (vocab_size example_vocab) \<le> - 4 \<and> (- 4 :: int) < 0 \<and>
   itos_get example_vocab 2 = Inr ''b'' \<and>
   itos_get example_vocab 4 = Inl IndexError \<and>
   itos_get example_vocab (- 4) = Inr UNK"
proof -
  from itos_get_range [of example_vocab 2] itos_get_range [of example_vocab 4]
    itos_get_range [of example_vocab "- 4"]
  show ?thesis by (simp add: example_vocab_size) (simp add: example_vocab_def)
qed

text \<open>
  C5 as written fails at a negative id: on the four-symbol example vocabulary the id
  \<open>-1\<close> is outside \<open>[0, vocab_size)\<close>, and decoding it does not fail but returns the last
  symbol.
\<close>

theorem itos_get_negative_counterexample:
  "\<not> (0 \<le> (- 1 :: int) \<and> - 1 < int (vocab_size example_vocab)) \<and>
   itos_get example_vocab (- 1) \<noteq> Inl IndexError \<and>
   itos_get example_vocab (- 1) = Inr '' ''"
  by (simp add: itos_get_def example_vocab_def)

section \<open>Properties of the training windows\<close>

lemma length_window_in: "i + w \<le> length s \<Longrightarrow> length (window_in voc s w i) = w"
  by (simp add: window_in_def length_enc length_slice)

lemma length_window_out: "i + w < length s \<Longrightarrow> length (window_out voc s w i) = w"
  by (simp add: window_out_def length_enc length_slice)

lemma set_row_same_length:
  "i < length t \<Longrightarrow> length row = length (t ! i) \<Longrightarrow> set_row t i row = Inr (t[i := row])"
  by (simp add: set_row_def)

lemma get_batch_loop_rows:
  assumes "length ins = n" "length outs = n"
    and "\<forall>r \<in> set ins. length r = w" "\<forall>r \<in> set outs. length r = w"
    and "k \<le> n" "n + w \<le> length s"
  shows "get_batch_loop voc s w [k..<n] (ins, outs) =
           Inr (take k ins @ map (window_in voc s w) [k..<n],
                take k outs @ map (window_out voc s w) [k..<n])"
  using assms
proof (induction "n - k" arbitrary: k ins outs)
  case 0
  then show ?case by simp
next
  case (Suc d)
  then have kn: "k < n" by simp
  let ?a = "window_in voc s w k" and ?b = "window_out voc s w k"
  have la: "length ?a = w" using kn Suc.prems by (simp add: length_window_in)
  have lb: "length ?b = w" using kn Suc.prems by (simp add: length_window_out)
  have ra: "set_row ins k ?a = Inr (ins[k := ?a])"
    using kn Suc.prems la by (simp add: set_row_same_length)
  have rb: "set_row outs k ?b = Inr (outs[k := ?b])"
    using kn Suc.prems lb by (simp add: set_row_same_length)
  have ia: "\<forall>r \<in> set (ins[k := ?a]). length r = w"
    using Suc.prems(3) la by (auto dest!: subsetD [OF set_update_subset_insert])
  have ib: "\<forall>r \<in> set (outs[k := ?b]). length r = w"
    using Suc.prems(4) lb by (auto dest!: subsetD [OF set_update_subset_insert])
  have step: "get_batch_loop voc s w [k..<n] (ins, outs) =
                get_batch_loop voc s w [Suc k..<n] (ins[k := ?a], outs[k := ?b])"
    using kn ra rb by (simp add: upt_conv_Cons window_in_def window_out_def)
  have ih: "get_batch_loop voc s w [Suc k..<n] (ins[k := ?a], outs[k := ?b]) =
              Inr (take (Suc k) (ins[k := ?a]) @ map (window_in voc s w) [Suc k..<n],
                   take (Suc k) (outs[k := ?b]) @ map (window_out voc s w) [Suc k..<n])"
    using Suc.hyps(2) Suc.prems kn ia ib
    by (intro Suc.hyps(1)) auto
  have ta: "take (Suc k) (ins[k := ?a]) = take k ins @ [?a]"
    using kn Suc.prems by (simp add: take_Suc_conv_app_nth)
  have tb: "take (Suc k) (outs[k := ?b]) = take k outs @ [?b]"
    using kn Suc.prems by (simp add: take_Suc_conv_app_nth)
  have ups: "[k..<n] = k # [Suc k..<n]"
    using kn by (simp add: upt_conv_Cons)
  have "map (window_in voc s w) [k..<n] = ?a # map (window_in voc s w) [Suc k..<n]"
    and "map (window_out voc s w) [k..<n] = ?b # map (window_out voc s w) [Suc k..<n]"
    by (simp_all add: ups)
  then show ?case
    by (simp only: step ih ta tb) simp
qed

lemma get_batch_rows:
  assumes "0 \<le> nchars" "nchars \<le> int (length s)"
  shows "get_batch voc s nchars =
           Inr (map (window_in voc s (nat nchars)) [0..<length s - nat nchars],
                map (window_out voc s (nat nchars)) [0..<length s - nat nchars])"
proof -
  let ?n = "length s - nat nchars"
  have n: "nat (int (length s) - nchars) = ?n" using assms by linarith
  have z: "zeros (int (length s) - nchars) nchars =
             Inr (replicate ?n (replicate (nat nchars) 0))"
    using assms by (simp add: zeros_def n)
  have "get_batch_loop voc s (nat nchars) [0..<?n]
          (replicate ?n (replicate (nat nchars) 0), replicate ?n (replicate (nat nchars) 0)) =
        Inr (take 0 (replicate ?n (replicate (nat nchars) 0)) @ map (window_in voc s (nat nchars)) [0..<?n],
             take 0 (replicate ?n (replicate (nat nchars) 0)) @ map (window_out voc s (nat nchars)) [0..<?n])"
    using assms by (intro get_batch_loop_rows) auto
  then show ?thesis
    by (simp add: get_batch_def z n)
qed

lemma get_batch_short:
  "int (length s) < nchars \<Longrightarrow> get_batch voc s nchars = Inl RuntimeError"
  by (simp add: get_batch_def zeros_def)

lemma get_batch_negative:
  "nchars < 0 \<Longrightarrow> get_batch voc s nchars = Inl RuntimeError"
  by (simp add: get_batch_def zeros_def)

lemma window_in_slice: "window_in voc s w k = slice (enc voc s) k (k + w)"
  by (simp add: window_in_def enc_slice)

lemma window_out_slice: "window_out voc s w k = slice (enc voc s) (k + 1) (k + w + 1)"
  by (simp add: window_out_def enc_slice)

lemma window_out_shift:
  assumes "k + w < length s" "i + 1 < w"
  shows "window_out voc s w k ! i = window_in voc s w k ! (i + 1)"
  using assms by (simp add: window_in_slice window_out_slice slice_nth length_enc)

lemma window_in_overlap:
  assumes "k + 1 + w \<le> length s"
  shows "take (w - 1) (window_in voc s w (k + 1)) = drop 1 (window_in voc s w k)"
proof (rule nth_equalityI)
  show "length (take (w - 1) (window_in voc s w (k + 1))) = length (drop 1 (window_in voc s w k))"
    using assms by (simp add: length_window_in)
next
  fix i assume "i < length (take (w - 1) (window_in voc s w (k + 1)))"
  then have i: "i < w - 1" by simp
  have l: "length (window_in voc s w k) = w"
    using assms by (simp add: length_window_in)
  have "drop 1 (window_in voc s w k) ! i = window_in voc s w k ! (1 + i)"
    using i l by (intro nth_drop) simp
  also have "\<dots> = enc voc s ! (k + (1 + i))"
    using i assms by (simp add: window_in_slice slice_nth length_enc)
  also have "\<dots> = window_in voc s w (k + 1) ! i"
    using i assms by (simp add: window_in_slice slice_nth length_enc)
  finally show "take (w - 1) (window_in voc s w (k + 1)) ! i = drop 1 (window_in voc s w k) ! i"
    using i by simp
qed

text \<open>
  C1, as the code has it. For a source of length \<open>L\<close> and a window size \<open>w\<close> with
  \<open>0 \<le> w \<le> L\<close>, \<open>get_batch\<close> returns exactly \<open>L - w\<close> windows, ordered by increasing
  start position: input \<open>k\<close> is the encoded source from \<open>k\<close> to \<open>k + w\<close>, target \<open>k\<close> the
  encoded source from \<open>k + 1\<close> to \<open>k + w + 1\<close>, so \<open>target[k][i] = input[k][i+1]\<close> for
  \<open>i < w - 1\<close>, and consecutive inputs overlap by \<open>w - 1\<close> positions. A source of length
  exactly \<open>w\<close> gives the empty result. A source shorter than \<open>w\<close> is an error: the
  allocation of the tensors with \<open>L - w < 0\<close> rows fails.
\<close>

theorem get_batch_windows:
  "(0 \<le> w \<and> w \<le> int (length s) \<longrightarrow>
      (\<exists>ins outs. get_batch voc s w = Inr (ins, outs) \<and>
         length ins = length s - nat w \<and> length outs = length s - nat w \<and>
         (\<forall>k < length s - nat w.
            ins ! k = slice (enc voc s) k (k + nat w) \<and>
            outs ! k = slice (enc voc s) (k + 1) (k + nat w + 1) \<and>
            (\<forall>i. i + 1 < nat w \<longrightarrow> outs ! k ! i = ins ! k ! (i + 1)) \<and>
            (k + 1 < length s - nat w \<longrightarrow>
               take (nat w - 1) (ins ! (k + 1)) = drop 1 (ins ! k))))) \<and>
   (int (length s) < w \<longrightarrow> get_batch voc s w = Inl RuntimeError)"
proof (intro conjI impI)
  assume "int (length s) < w"
  then show "get_batch voc s w = Inl RuntimeError" by (rule get_batch_short)
next
  assume a: "0 \<le> w \<and> w \<le> int (length s)"
  let ?n = "length s - nat w"
  let ?ins = "map (window_in voc s (nat w)) [0..<?n]"
  let ?outs = "map (window_out voc s (nat w)) [0..<?n]"
  have g: "get_batch voc s w = Inr (?ins, ?outs)"
    using a by (simp add: get_batch_rows)
  have rows: "ins_k = slice (enc voc s) k (k + nat w) \<and>
            outs_k = slice (enc voc s) (k + 1) (k + nat w + 1) \<and>
            (\<forall>i. i + 1 < nat w \<longrightarrow> outs_k ! i = ins_k ! (i + 1)) \<and>
            (k + 1 < ?n \<longrightarrow> take (nat w - 1) (?ins ! (k + 1)) = drop 1 ins_k)"
    if k: "k < ?n" and ik: "ins_k = ?ins ! k" and ok: "outs_k = ?outs ! k" for k ins_k outs_k
  proof -
    have kw: "k + nat w < length s" using k by linarith
    have 1: "ins_k = window_in voc s (nat w) k" using k ik by simp
    have 2: "outs_k = window_out voc s (nat w) k" using k ok by simp
    have 3: "outs_k ! i = ins_k ! (i + 1)" if "i + 1 < nat w" for i
      using that kw by (simp add: 1 2 window_out_shift)
    have 4: "take (nat w - 1) (?ins ! (k + 1)) = drop 1 ins_k" if "k + 1 < ?n"
    proof -
      have "k + 1 + nat w \<le> length s" using that by linarith
      then have "take (nat w - 1) (window_in voc s (nat w) (k + 1)) = drop 1 (window_in voc s (nat w) k)"
        by (rule window_in_overlap)
      then show ?thesis using that by (simp add: 1)
    qed
    show ?thesis
      using 3 4 by (simp add: 1 2 window_in_slice window_out_slice)
  qed
  show "\<exists>ins outs. get_batch voc s w = Inr (ins, outs) \<and>
         length ins = length s - nat w \<and> length outs = length s - nat w \<and>
         (\<forall>k < length s - nat w.
            ins ! k = slice (enc voc s) k (k + nat w) \<and>
            outs ! k = slice (enc voc s) (k + 1) (k + nat w + 1) \<and>
            (\<forall>i. i + 1 < nat w \<longrightarrow> outs ! k ! i = ins ! k ! (i + 1)) \<and>
            (k + 1 < length s - nat w \<longrightarrow>
               take (nat w - 1) (ins ! (k + 1)) = drop 1 (ins ! k)))"
  proof (intro exI conjI allI impI)
    show "get_batch voc s w = Inr (?ins, ?outs)" by (rule g)
  next
    fix k assume "k < ?n"
    from rows [OF this refl refl]
    show "?ins ! k = slice (enc voc s) k (k + nat w)"
      and "?outs ! k = slice (enc voc s) (k + 1) (k + nat w + 1)"
      by blast+
    fix i assume "i + 1 < nat w"
    with rows [OF \<open>k < ?n\<close> refl refl] show "?outs ! k ! i = ?ins ! k ! (i + 1)" by blast
  next
    fix k assume "k < ?n" "k + 1 < ?n"
    with rows [OF \<open>k < ?n\<close> refl refl]
    show "take (nat w - 1) (?ins ! (k + 1)) = drop 1 (?ins ! k)" by blast
  qed simp_all
qed

text \<open>
  The source \<open>ab a\<close> with window size 2 gives two windows; the source \<open>ab\<close> with window
  size 3 fails.
\<close>

theorem get_batch_windows_witness:
  "(0::int) \<le> 2 \<and> 2 \<le> int (length ''ab a'') \<and> int (length ''ab'') < 3 \<and>
   get_batch example_vocab ''ab a'' 2 = Inr ([[1, 2], [2, 3]], [[2, 3], [3, 1]]) \<and>
   get_batch example_vocab ''ab'' 3 = Inl RuntimeError"
proof -
  have e: "enc example_vocab ''ab a'' = [1, 2, 3, 1]"
    by (simp add: enc_def encode_def char_tokenizer_def stoi_get_def example_vocab_def UNK_def)
  from get_batch_windows [of 2 "''ab a''" example_vocab]
  obtain ins outs where g: "get_batch example_vocab ''ab a'' 2 = Inr (ins, outs)"
    and l: "length ins = 2" "length outs = 2"
    and r: "\<forall>k<2. ins ! k = slice [1, 2, 3, 1] k (k + 2) \<and> outs ! k = slice [1, 2, 3, 1] (k + 1) (k + 2 + 1)"
    by (auto simp: e)
  from r have "ins ! 0 = [1, 2]" "ins ! 1 = [2, 3]" "outs ! 0 = [2, 3]" "outs ! 1 = [3, 1]"
    by (simp_all add: slice_def)
  with l have "ins = [[1, 2], [2, 3]]" "outs = [[2, 3], [3, 1]]"
    by (auto simp: list_eq_iff_nth_eq less_Suc_eq numeral_2_eq_2)
  with g get_batch_windows [of 3 "''ab''" example_vocab] show ?thesis by simp
qed

text \<open>
  C1 as written fails for a source shorter than the window: \<open>ab\<close> has fewer than
  \<open>3 + 1\<close> symbols, and \<open>get_batch\<close> with window size 3 raises instead of returning the
  empty result.
\<close>

theorem get_batch_short_counterexample:
  "length ''ab'' < 3 + 1 \<and> get_batch example_vocab ''ab'' 3 = Inl RuntimeError \<and>
   get_batch example_vocab ''ab'' 3 \<noteq> Inr ([], [])"
  by (simp add: get_batch_def zeros_def)

text \<open>
  C10. Character-level encoding commutes with slicing, \<open>enc(s[i:j]) = enc(s)[i:j]\<close> (for
  all non-negative bounds, clamped as Python clamps them), and so the windows that
  \<open>get_batch\<close> encodes one by one are the windows of the encoded source.
\<close>

theorem enc_commutes_with_slice:
  "enc voc (slice s i j) = slice (enc voc s) i j \<and>
   (0 \<le> w \<and> w \<le> int (length s) \<longrightarrow>
      get_batch voc s w =
        Inr (map (\<lambda>k. slice (enc voc s) k (k + nat w)) [0..<length s - nat w],
             map (\<lambda>k. slice (enc voc s) (k + 1) (k + nat w + 1)) [0..<length s - nat w]))"
proof -
  have "window_in voc s (nat w) = (\<lambda>k. slice (enc voc s) k (k + nat w))"
    and "window_out voc s (nat w) = (\<lambda>k. slice (enc voc s) (k + 1) (k + nat w + 1))"
    by (simp_all add: fun_eq_iff window_in_slice window_out_slice)
  then show ?thesis
    by (simp add: enc_slice get_batch_rows)
qed

text \<open>
  On the example vocabulary, the slice from 1 to 3 of \<open>abz\<close> encodes to 2, 0, and the
  windows of size 1 of \<open>abz\<close> are those of its encoding 1, 2, 0.
\<close>

theorem enc_commutes_with_slice_witness:
  "(0::int) \<le> 1 \<and> 1 \<le> int (length ''abz'') \<and>
   enc example_vocab (slice ''abz'' 1 3) = [2, 0] \<and>
   get_batch example_vocab ''abz'' 1 = Inr ([[1], [2]], [[2], [0]])"
proof -
  have e: "enc example_vocab ''abz'' = [1, 2, 0]"
    by (simp add: enc_def encode_def char_tokenizer_def stoi_get_def example_vocab_def UNK_def)
  have u: "[0..<2] = [0, 1]" by (simp add: upt_rec)
  from enc_commutes_with_slice [of example_vocab "''abz''" 1 3 1]
  show ?thesis by (simp add: e slice_def u)
qed

section \<open>Properties of greedy generation\<close>

lemma argmax_from_is_argmax:
  assumes "bi < length pre" "pre ! bi = best" "i = length pre"
    and "\<forall>j < length pre. pre ! j \<le> best" "\<forall>j < bi. pre ! j < best"
  shows "is_argmax (pre @ xs) (argmax_from best bi i xs)"
  using assms
proof (induction xs arbitrary: pre best bi i)
  case Nil
  then show ?case by (simp add: is_argmax_def)
next
  case (Cons x xs)
  show ?case
  proof (cases "best < x")
    case True
    have "is_argmax ((pre @ [x]) @ xs) (argmax_from x i (Suc i) xs)"
    proof (rule Cons.IH)
      show "i < length (pre @ [x])" using Cons.prems by simp
      show "(pre @ [x]) ! i = x" using Cons.prems by simp
      show "Suc i = length (pre @ [x])" using Cons.prems by simp
      show "\<forall>j < length (pre @ [x]). (pre @ [x]) ! j \<le> x"
        using Cons.prems True by (auto simp: nth_append less_Suc_eq intro: order.trans less_imp_le)
      show "\<forall>j < i. (pre @ [x]) ! j < x"
        using Cons.prems True by (auto simp: nth_append intro: le_less_trans)
    qed
    with True show ?thesis by simp
  next
    case False
    have "is_argmax ((pre @ [x]) @ xs) (argmax_from best bi (Suc i) xs)"
    proof (rule Cons.IH)
      show "bi < length (pre @ [x])" using Cons.prems by simp
      show "(pre @ [x]) ! bi = best" using Cons.prems by (simp add: nth_append)
      show "Suc i = length (pre @ [x])" using Cons.prems by simp
      show "\<forall>j < length (pre @ [x]). (pre @ [x]) ! j \<le> best"
        using Cons.prems False by (auto simp: nth_append less_Suc_eq)
      show "\<forall>j < bi. (pre @ [x]) ! j < best"
        using Cons.prems by (auto simp: nth_append)
    qed
    with False show ?thesis by simp
  qed
qed

lemma argmax_nonempty:
  assumes "row \<noteq> []"
  shows "\<exists>i. argmax row = Inr i \<and> is_argmax row i"
proof -
  from assms obtain x xs where row: "row = x # xs" by (cases row) auto
  have "is_argmax ([x] @ xs) (argmax_from x 0 1 xs)"
    by (rule argmax_from_is_argmax) simp_all
  then show ?thesis by (simp add: row argmax_def)
qed

lemma is_argmax_unique: "is_argmax row i \<Longrightarrow> is_argmax row j \<Longrightarrow> i = j"
  unfolding is_argmax_def by (metis leD linorder_neqE_nat)

lemma generate_loop_greedy:
  assumes "net_ok (vocab_size voc) net" "0 < vocab_size voc"
    and "out \<noteq> []" "\<forall>row \<in> set out. length row = vocab_size voc"
  shows "\<exists>ids. length ids = n \<and> greedy_trace net (out, s) ids \<and>
           (\<forall>i \<in> set ids. i < vocab_size voc) \<and>
           generate_loop net voc n (chars, out, s) = Inr (chars @ map (\<lambda>i. itos voc ! i) ids)"
  using assms(3,4)
proof (induction n arbitrary: chars out s)
  case 0
  have "greedy_trace net (out, s) []" by simp
  then show ?case by (intro exI [of _ "[]"]) simp
next
  case (Suc n)
  let ?row = "last out"
  have lr: "last_row out = Inr ?row" using Suc.prems by (simp add: last_row_def)
  have "length ?row = vocab_size voc" using Suc.prems by simp
  with assms(2) have "?row \<noteq> []" by auto
  then obtain nc where nc: "argmax ?row = Inr nc" "is_argmax ?row nc"
    using argmax_nonempty by blast
  then have ncV: "nc < vocab_size voc"
    using \<open>length ?row = vocab_size voc\<close> by (simp add: is_argmax_def)
  then have dec: "itos_get voc (int nc) = Inr (itos voc ! nc)" by (rule itos_get_in_range)
  have "[nc] \<noteq> [] \<and> (\<forall>i \<in> set [nc]. i < vocab_size voc)" using ncV by simp
  with assms(1) obtain out' s' where st: "net [nc] (Some s) = Inr (out', s')"
    and o': "length out' = length [nc]" "\<forall>row \<in> set out'. length row = vocab_size voc"
    unfolding net_ok_def by blast
  from o' have "out' \<noteq> []" by auto
  from Suc.IH [OF this o'(2)]
  obtain ids where ids: "length ids = n" "greedy_trace net (out', s') ids"
    "\<forall>i \<in> set ids. i < vocab_size voc"
    "generate_loop net voc n (chars @ [itos voc ! nc], out', s') =
       Inr ((chars @ [itos voc ! nc]) @ map (\<lambda>i. itos voc ! i) ids)"
    by blast
  have "greedy_trace net (out, s) (nc # ids)"
    using Suc.prems nc st ids by simp
  moreover have "generate_loop net voc (Suc n) (chars, out, s) =
      Inr (chars @ map (\<lambda>i. itos voc ! i) (nc # ids))"
    using lr nc dec st ids by simp
  ultimately show ?case
    using ids ncV by (intro exI [of _ "nc # ids"]) simp
qed

lemma enc_in_range:
  assumes "vocab_ok voc"
  shows "\<forall>i \<in> set (enc voc start). i < vocab_size voc"
  using assms
  by (auto simp: enc_def encode_def stoi_get_def vocab_ok_def split: option.splits)

lemma vocab_ok_example: "vocab_ok example_vocab"
  by (simp add: vocab_ok_def vocab_size_def example_vocab_def)

lemma net_ok_forward:
  assumes "\<forall>xs s. xs \<noteq> [] \<longrightarrow> (\<exists>h s'. rnn xs s = Inr (h, s') \<and> length h = length xs)"
    and "\<forall>h. length (fc h) = V"
  shows "net_ok V (forward rnn fc V)"
  unfolding net_ok_def
proof (intro allI impI)
  fix xs :: "nat list" and s
  assume a: "xs \<noteq> [] \<and> (\<forall>i \<in> set xs. i < V)"
  then have "map (one_hot V) xs \<noteq> []" by simp
  with assms(1) obtain h s' where r: "rnn (map (one_hot V) xs) s = Inr (h, s')"
    and l: "length h = length (map (one_hot V) xs)" by blast
  have "forward rnn fc V xs s = Inr (map fc h, s')"
    using a r by (auto simp: forward_def)
  then show "\<exists>out s'. forward rnn fc V xs s = Inr (out, s') \<and> length out = length xs \<and>
      (\<forall>row \<in> set out. length row = V)"
    using assms(2) l by simp
qed

lemma generate_empty_seed:
  assumes "0 < sz" "net [] None = Inr ([], s0)"
  shows "generate net voc sz [] = Inl IndexError"
proof -
  from assms(1) obtain n where "nat sz = Suc n" by (cases "nat sz") auto
  then show ?thesis
    using assms(2)
    by (simp add: generate_def char_tokenizer_def enc_list_def encode_def last_row_def)
qed

lemma generate_soft_empty_seed:
  assumes "0 < sz" "net [] None = Inr ([], s0)"
  shows "generate_soft ops net voc g sz [] temperature = Inl IndexError"
proof -
  from assms(1) obtain n where "nat sz = Suc n" by (cases "nat sz") auto
  then show ?thesis
    using assms(2)
    by (simp add: generate_soft_def char_tokenizer_def enc_list_def encode_def last_row_def)
qed

lemma net_ok_const_b_net: "net_ok 4 const_b_net"
  by (auto simp: net_ok_def const_b_net_def)

lemma generate_example: "generate const_b_net example_vocab 3 ''a'' = Inr ''abbb''"
  by (simp add: generate_def const_b_net_def example_vocab_def enc_list_def encode_def
      char_tokenizer_def stoi_get_def UNK_def eval_nat_numeral last_row_def argmax_def
      itos_get_def)

lemma is_argmax_example: "is_argmax [0, 0, 1, 0 :: real] i \<longleftrightarrow> i = 2"
proof
  assume "i = 2"
  then show "is_argmax [0, 0, 1, 0 :: real] i"
    by (auto simp: is_argmax_def nth_Cons split: nat.splits)
next
  assume a: "is_argmax [0, 0, 1, 0 :: real] i"
  have "is_argmax [0, 0, 1, 0 :: real] 2"
    by (auto simp: is_argmax_def nth_Cons split: nat.splits)
  with a show "i = 2" by (rule is_argmax_unique)
qed

text \<open>
  C4, as the code has it. For every vocabulary whose ids lie in \<open>[0, vocab_size)\<close>,
  every network that honours the contract of the sequence model (one logits vector of
  the vocabulary's size per position), every non-empty seed and every length,
  \<open>generate\<close> runs the network over the encoded seed
  and returns the seed followed by \<open>length\<close> symbols (none for a negative length): the
  decoded ids of a greedy run, in which each id has the maximum logit value of the last
  logits vector, is the lowest such id, and is fed back into the network with the current
  state. With the empty seed and a positive length the call raises IndexError as soon as
  the network, run on no position, returns no logits vector. On the vocabulary
  \<open>{a:1, b:2, ' ':3, <unk>:0}\<close>, with a model that always gives id 2 the highest logit,
  the seed \<open>a\<close> and length 3 give \<open>abbb\<close>.
\<close>

theorem generate_greedy:
  "(start \<noteq> [] \<and> vocab_ok voc \<and> net_ok (vocab_size voc) net \<longrightarrow>
      (\<exists>out s ids. net (enc voc start) None = Inr (out, s) \<and>
         length ids = nat sz \<and> greedy_trace net (out, s) ids \<and>
         generate net voc sz start = Inr (start @ concat (map (\<lambda>i. itos voc ! i) ids)))) \<and>
   (0 < sz \<and> net [] None = Inr ([], s0) \<longrightarrow> generate net voc sz [] = Inl IndexError) \<and>
   generate const_b_net example_vocab 3 ''a'' = Inr ''abbb''"
proof (intro conjI impI)
  show "generate const_b_net example_vocab 3 ''a'' = Inr ''abbb''"
    by (rule generate_example)
next
  assume "0 < sz \<and> net [] None = Inr ([], s0)"
  then show "generate net voc sz [] = Inl IndexError"
    by (simp add: generate_empty_seed)
next
  assume a: "start \<noteq> [] \<and> vocab_ok voc \<and> net_ok (vocab_size voc) net"
  then have a1: "net_ok (vocab_size voc) net" and a2: "0 < vocab_size voc"
    by (simp_all add: vocab_ok_def)
  from a have ne: "enc voc start \<noteq> []" by (simp add: enc_def encode_def char_tokenizer_def)
  from a have "\<forall>i \<in> set (enc voc start). i < vocab_size voc"
    by (simp add: enc_in_range)
  with ne have "enc voc start \<noteq> [] \<and> (\<forall>i \<in> set (enc voc start). i < vocab_size voc)" ..
  with a1 obtain out s where st: "net (enc voc start) None = Inr (out, s)"
    and o: "length out = length (enc voc start)" "\<forall>row \<in> set out. length row = vocab_size voc"
    unfolding net_ok_def by blast
  from o ne have "out \<noteq> []" by auto
  from generate_loop_greedy [OF a1 a2 \<open>out \<noteq> []\<close> o(2), of "nat sz" s "char_tokenizer start"]
  obtain ids where ids: "length ids = nat sz" "greedy_trace net (out, s) ids"
    "generate_loop net voc (nat sz) (char_tokenizer start, out, s) =
       Inr (char_tokenizer start @ map (\<lambda>i. itos voc ! i) ids)"
    by blast
  have "generate net voc sz start = Inr (start @ concat (map (\<lambda>i. itos voc ! i) ids))"
    by (simp add: generate_def enc_list_char_tokenizer st ids(3) concat_char_tokenizer)
  with st ids show "\<exists>out s ids. net (enc voc start) None = Inr (out, s) \<and>
         length ids = nat sz \<and> greedy_trace net (out, s) ids \<and>
         generate net voc sz start = Inr (start @ concat (map (\<lambda>i. itos voc ! i) ids))"
    by blast
qed

text \<open>
  With the model of the example, the seed \<open>ab\<close> and length 2 give \<open>abbb\<close>: both greedy
  choices are id 2. The empty seed with length 1 raises.
\<close>

theorem generate_greedy_witness:
  "''ab'' \<noteq> [] \<and> vocab_ok example_vocab \<and>
   net_ok (vocab_size example_vocab) const_b_net \<and>
   generate const_b_net example_vocab 2 ''ab'' = Inr ''abbb'' \<and>
   (0::int) < 1 \<and> const_b_net [] None = Inr ([], ()) \<and>
   generate const_b_net example_vocab 1 [] = Inl IndexError"
proof -
  have e: "const_b_net [] None = Inr ([], ())" by (simp add: const_b_net_def)
  with generate_greedy [where sz = 1 and net = const_b_net and voc = example_vocab
      and ?s0.0 = "()"]
  have x: "generate const_b_net example_vocab 1 [] = Inl IndexError" by simp
  have h: "''ab'' \<noteq> [] \<and> vocab_ok example_vocab \<and>
      net_ok (vocab_size example_vocab) const_b_net"
    by (simp add: example_vocab_size net_ok_const_b_net vocab_ok_example)
  with generate_greedy [of "''ab''" example_vocab const_b_net 2]
  obtain out s ids where st: "const_b_net (enc example_vocab ''ab'') None = Inr (out, s)"
    and ids: "length ids = 2" "greedy_trace const_b_net (out, s) ids"
    and g: "generate const_b_net example_vocab 2 ''ab'' =
              Inr (''ab'' @ concat (map (\<lambda>i. itos example_vocab ! i) ids))"
    by auto
  from ids(1) obtain i j where ij: "ids = [i, j]"
    by (auto simp: length_Suc_conv numeral_2_eq_2)
  from ids(2) have "i = 2" "j = 2"
    using st by (auto simp: ij const_b_net_def is_argmax_example enc_def encode_def
        char_tokenizer_def split: sum.splits)
  with g ij have "generate const_b_net example_vocab 2 ''ab'' = Inr ''abbb''"
    by (simp add: example_vocab_def)
  with h e x show ?thesis by simp
qed

text \<open>
  C4 as written fails for the empty seed: the model of the example honours the contract,
  but run on no position it returns no logits vector, and \<open>generate\<close> with length 3
  raises when it reads the last one, instead of returning three symbols.
\<close>

theorem generate_empty_seed_counterexample:
  "vocab_ok example_vocab \<and> net_ok (vocab_size example_vocab) const_b_net \<and>
   generate const_b_net example_vocab 3 '''' = Inl IndexError"
  by (simp add: example_vocab_size net_ok_const_b_net vocab_ok_example)
     (simp add: generate_def const_b_net_def enc_list_def encode_def char_tokenizer_def
      eval_nat_numeral last_row_def)

section \<open>Properties of sampled generation\<close>

lemma generate_soft_loop_ok:
  assumes "net_ok (vocab_size voc) net" "0 < vocab_size voc"
    and "sampler_ok (vocab_size voc) ops temperature"
    and "out \<noteq> []" "\<forall>row \<in> set out. length row = vocab_size voc"
  shows "\<exists>ids. length ids = n \<and> (\<forall>i \<in> set ids. i < vocab_size voc) \<and>
           generate_soft_loop ops net voc temperature n (chars, out, s, g) =
             Inr (chars @ map (\<lambda>i. itos voc ! i) ids)"
  using assms(4,5)
proof (induction n arbitrary: chars out s g)
  case 0
  then show ?case by simp
next
  case (Suc n)
  let ?row = "last out"
  let ?w = "map (\<lambda>x. t_exp ops (t_div ops x temperature)) ?row"
  have lr: "last_row out = Inr ?row" using Suc.prems by (simp add: last_row_def)
  have "length ?row = vocab_size voc" using Suc.prems by simp
  with assms(3) obtain nc g' where nc: "t_multinomial ops ?w g = Inr (nc, g')"
    and ncV: "nc < vocab_size voc"
    unfolding sampler_ok_def by blast
  have dec: "itos_get voc (int nc) = Inr (itos voc ! nc)" using ncV by (rule itos_get_in_range)
  have "[nc] \<noteq> [] \<and> (\<forall>i \<in> set [nc]. i < vocab_size voc)" using ncV by simp
  with assms(1) obtain out' s' where st: "net [nc] (Some s) = Inr (out', s')"
    and o': "length out' = length [nc]" "\<forall>row \<in> set out'. length row = vocab_size voc"
    unfolding net_ok_def by blast
  from o' have "out' \<noteq> []" by auto
  from Suc.IH [OF this o'(2)]
  obtain ids where ids: "length ids = n" "\<forall>i \<in> set ids. i < vocab_size voc"
    "generate_soft_loop ops net voc temperature n (chars @ [itos voc ! nc], out', s', g') =
       Inr ((chars @ [itos voc ! nc]) @ map (\<lambda>i. itos voc ! i) ids)"
    by blast
  have "generate_soft_loop ops net voc temperature (Suc n) (chars, out, s, g) =
      Inr (chars @ map (\<lambda>i. itos voc ! i) (nc # ids))"
    using lr nc dec st ids by simp
  then show ?case
    using ids ncV by (intro exI [of _ "nc # ids"]) simp
qed

lemma sampler_ok_real_ops: "t \<noteq> 0 \<Longrightarrow> sampler_ok 4 real_ops t"
  by (auto simp: sampler_ok_def real_ops_def not_le intro: exI)

lemma const_b_net_prime: "const_b_net (enc_list example_vocab (char_tokenizer ''a'')) None = Inr ([[0, 0, 1, 0]], ())"
  by (simp add: const_b_net_def enc_list_def encode_def char_tokenizer_def)

lemma generate_soft_example_zero: "generate_soft real_ops const_b_net example_vocab 0 0 ''a'' 0 = Inr ''a''"
  by (simp add: generate_soft_def const_b_net_prime) (simp add: char_tokenizer_def)

lemma generate_soft_example_negative_size: "generate_soft real_ops const_b_net example_vocab 0 (- 1) ''a'' (- 1) = Inr ''a''"
  by (simp add: generate_soft_def const_b_net_prime) (simp add: char_tokenizer_def)

lemma const_b_net_step: "const_b_net [nc] (Some s) = Inr ([[0, 0, 1, 0]], ())"
  by (simp add: const_b_net_def)

lemma real_ops_draw: "t_multinomial real_ops
     [t_exp real_ops (t_div real_ops 0 (- 1)), t_exp real_ops (t_div real_ops 0 (- 1)),
      t_exp real_ops (t_div real_ops 1 (- 1)), t_exp real_ops (t_div real_ops 0 (- 1))] g
   = Inr (g mod 4, Suc g)"
  by (simp add: real_ops_def not_le)

lemma generate_soft_example_negative_temperature: "generate_soft real_ops const_b_net example_vocab 0 2 ''a'' (- 1) = Inr ''a<unk>a''"
proof -
  have d0: "itos_get example_vocab (int 0) = Inr ''<unk>''"
    and d1: "itos_get example_vocab (int 1) = Inr ''a''"
    by (simp_all add: itos_get_def example_vocab_def UNK_def)
  have "generate_soft_loop real_ops const_b_net example_vocab (- 1) (Suc (Suc 0))
          (char_tokenizer ''a'', [[0, 0, 1, 0]], (), 0) = Inr [''a'', ''<unk>'', ''a'']"
    using d0 d1 by (simp add: last_row_def real_ops_draw const_b_net_step) (simp add: char_tokenizer_def)
  then show ?thesis
    by (simp add: generate_soft_def const_b_net_prime eval_nat_numeral)
qed

text \<open>
  C2, as the code has it. \<open>generate_soft\<close> checks none of its arguments. With a
  non-positive length it returns the seed unchanged, whatever the temperature, as soon
  as the network accepts the seed. With a non-empty seed, a vocabulary whose ids lie in
  \<open>[0, vocab_size)\<close>, a network that honours the contract of the sequence model and a
  sampler that accepts the weights computed at the given temperature, it returns the
  seed followed by \<open>length\<close> decoded symbols, whatever the sign of the temperature: the
  temperature is only ever passed to the division.
  With the empty seed and a positive length the call raises IndexError as soon as the
  network, run on no position, returns no logits vector.
\<close>

theorem generate_soft_unchecked:
  "(sz \<le> 0 \<and> net (enc voc start) None = Inr (out, s) \<longrightarrow>
      generate_soft ops net voc g sz start temperature = Inr start) \<and>
   (start \<noteq> [] \<and> vocab_ok voc \<and> net_ok (vocab_size voc) net \<and>
    sampler_ok (vocab_size voc) ops temperature \<longrightarrow>
      (\<exists>ids. length ids = nat sz \<and> (\<forall>i \<in> set ids. i < vocab_size voc) \<and>
         generate_soft ops net voc g sz start temperature =
           Inr (start @ concat (map (\<lambda>i. itos voc ! i) ids)))) \<and>
   (0 < sz \<and> net [] None = Inr ([], s0) \<longrightarrow>
      generate_soft ops net voc g sz [] temperature = Inl IndexError)"
proof (intro conjI impI)
  assume "0 < sz \<and> net [] None = Inr ([], s0)"
  then show "generate_soft ops net voc g sz [] temperature = Inl IndexError"
    by (simp add: generate_soft_empty_seed)
next
  assume "sz \<le> 0 \<and> net (enc voc start) None = Inr (out, s)"
  then show "generate_soft ops net voc g sz start temperature = Inr start"
    by (simp add: generate_soft_def enc_list_char_tokenizer concat_char_tokenizer)
next
  assume a: "start \<noteq> [] \<and> vocab_ok voc \<and> net_ok (vocab_size voc) net \<and>
    sampler_ok (vocab_size voc) ops temperature"
  then have a1: "net_ok (vocab_size voc) net" and a2: "0 < vocab_size voc"
    and a3: "sampler_ok (vocab_size voc) ops temperature" by (simp_all add: vocab_ok_def)
  from a have ne: "enc voc start \<noteq> []" by (simp add: enc_def encode_def char_tokenizer_def)
  from a have "\<forall>i \<in> set (enc voc start). i < vocab_size voc"
    by (simp add: enc_in_range)
  with ne have "enc voc start \<noteq> [] \<and> (\<forall>i \<in> set (enc voc start). i < vocab_size voc)" ..
  with a1 obtain out s where st: "net (enc voc start) None = Inr (out, s)"
    and o: "length out = length (enc voc start)" "\<forall>row \<in> set out. length row = vocab_size voc"
    unfolding net_ok_def by blast
  from o ne have "out \<noteq> []" by auto
  from generate_soft_loop_ok [OF a1 a2 a3 this o(2), of "nat sz" "char_tokenizer start" s g]
  obtain ids where ids: "length ids = nat sz" "\<forall>i \<in> set ids. i < vocab_size voc"
    "generate_soft_loop ops net voc temperature (nat sz) (char_tokenizer start, out, s, g) =
       Inr (char_tokenizer start @ map (\<lambda>i. itos voc ! i) ids)"
    by blast
  have "generate_soft ops net voc g sz start temperature =
      Inr (start @ concat (map (\<lambda>i. itos voc ! i) ids))"
    by (simp add: generate_soft_def enc_list_char_tokenizer st ids(3) concat_char_tokenizer)
  with ids show "\<exists>ids. length ids = nat sz \<and> (\<forall>i \<in> set ids. i < vocab_size voc) \<and>
         generate_soft ops net voc g sz start temperature =
           Inr (start @ concat (map (\<lambda>i. itos voc ! i) ids))"
    by blast
qed

text \<open>
  With length 0 and temperature 0 the seed \<open>a\<close> comes back; with length 2 and
  temperature \<open>-1\<close>, over real arithmetic, two symbols are appended to the seed; the
  empty seed with length 1 raises.
\<close>

theorem generate_soft_unchecked_witness:
  "(0::int) \<le> 0 \<and>
   const_b_net (enc example_vocab ''a'') None = Inr ([[0, 0, 1, 0]], ()) \<and>
   generate_soft real_ops const_b_net example_vocab 0 0 ''a'' 0 = Inr ''a'' \<and>
   ''a'' \<noteq> [] \<and> vocab_ok example_vocab \<and>
   net_ok (vocab_size example_vocab) const_b_net \<and>
   sampler_ok (vocab_size example_vocab) real_ops (- 1) \<and>
   (\<exists>ids. length ids = 2 \<and>
      generate_soft real_ops const_b_net example_vocab 0 2 ''a'' (- 1) =
        Inr (''a'' @ concat (map (\<lambda>i. itos example_vocab ! i) ids))) \<and>
   (0::int) < 1 \<and> const_b_net [] None = Inr ([], ()) \<and>
   generate_soft real_ops const_b_net example_vocab 0 1 [] 1 = Inl IndexError"
proof -
  have e: "const_b_net [] None = Inr ([], ())" by (simp add: const_b_net_def)
  with generate_soft_unchecked [where sz = 1 and net = const_b_net and voc = example_vocab
      and ?s0.0 = "()" and ops = real_ops and g = 0 and temperature = 1]
  have x: "generate_soft real_ops const_b_net example_vocab 0 1 [] 1 = Inl IndexError"
    by simp
  have n: "const_b_net (enc example_vocab ''a'') None = Inr ([[0, 0, 1, 0]], ())"
    by (simp add: const_b_net_def enc_def encode_def char_tokenizer_def)
  have h: "''a'' \<noteq> [] \<and> vocab_ok example_vocab \<and>
      net_ok (vocab_size example_vocab) const_b_net \<and>
      sampler_ok (vocab_size example_vocab) real_ops (- 1)"
    by (simp add: example_vocab_size net_ok_const_b_net sampler_ok_real_ops vocab_ok_example)
  from generate_soft_unchecked [where sz = 0 and net = const_b_net and voc = example_vocab
      and start = "''a''" and out = "[[0, 0, 1, 0]]" and s = "()" and ops = real_ops
      and g = 0 and temperature = 0] n
  have 1: "generate_soft real_ops const_b_net example_vocab 0 0 ''a'' 0 = Inr ''a''"
    by simp
  from generate_soft_unchecked [where sz = 2 and net = const_b_net and voc = example_vocab
      and start = "''a''" and ops = real_ops and g = 0 and temperature = "- 1"] h
  have 2: "\<exists>ids. length ids = 2 \<and>
      generate_soft real_ops const_b_net example_vocab 0 2 ''a'' (- 1) =
        Inr (''a'' @ concat (map (\<lambda>i. itos example_vocab ! i) ids))"
    by auto
  from n h 1 2 e x show ?thesis by simp
qed

text \<open>
  C2 as written fails: with temperature 0 and length 0, and with temperature \<open>-1\<close> and
  length \<open>-1\<close>, \<open>generate_soft\<close> returns the seed; with temperature \<open>-1\<close> and length 2 it
  returns the seed and two sampled symbols. No call fails.
\<close>

theorem generate_soft_no_validation_counterexample:
  "generate_soft real_ops const_b_net example_vocab 0 0 ''a'' 0 = Inr ''a'' \<and>
   generate_soft real_ops const_b_net example_vocab 0 (- 1) ''a'' (- 1) = Inr ''a'' \<and>
   generate_soft real_ops const_b_net example_vocab 0 2 ''a'' (- 1) = Inr ''a<unk>a''"
  using generate_soft_example_zero generate_soft_example_negative_size
    generate_soft_example_negative_temperature by simp

section \<open>The weights and the law of a sampled step\<close>

lemma itos_get_nat:
  "itos_get voc (int i) = (if i < vocab_size voc then Inr (itos voc ! i) else Inl IndexError)"
  by (simp add: itos_get_def vocab_size_def)

lemma generate_soft_loop_trace:
  "generate_soft_loop ops net voc temperature n (chars, out, s, g) = Inr cs \<longleftrightarrow>
     (\<exists>tr. length tr = n \<and> sampled_trace ops net temperature (out, s, g) tr \<and>
        (\<forall>p \<in> set tr. snd p < vocab_size voc) \<and>
        cs = chars @ map (\<lambda>p. itos voc ! snd p) tr)"
proof (induction n arbitrary: chars out s g)
  case 0
  then show ?case by auto
next
  case (Suc n)
  show ?case
  proof (cases "out = []")
    case True
    have "\<not> (\<exists>tr. length tr = Suc n \<and> sampled_trace ops net temperature (out, s, g) tr \<and>
        (\<forall>p \<in> set tr. snd p < vocab_size voc) \<and>
        cs = chars @ map (\<lambda>p. itos voc ! snd p) tr)"
      using True by (auto simp: length_Suc_conv)
    then show ?thesis using True by (simp add: last_row_def)
  next
    case False
    let ?w = "soft_weights ops temperature (last out)"
    have L: "generate_soft_loop ops net voc temperature (Suc n) (chars, out, s, g) =
        (case t_multinomial ops ?w g of
                Inl e \<Rightarrow> Inl e
              | Inr (nc, g') \<Rightarrow>
                  (case itos_get voc (int nc) of
                     Inl e \<Rightarrow> Inl e
                   | Inr ch \<Rightarrow>
                       (case net [nc] (Some s) of
                          Inl e \<Rightarrow> Inl e
                        | Inr (out', s') \<Rightarrow>
                            generate_soft_loop ops net voc temperature n
                              (chars @ [ch], out', s', g'))))"
      using False by (simp add: last_row_def soft_weights_def)
    have R: "(\<exists>tr. length tr = Suc n \<and> sampled_trace ops net temperature (out, s, g) tr \<and>
        (\<forall>p \<in> set tr. snd p < vocab_size voc) \<and>
        cs = chars @ map (\<lambda>p. itos voc ! snd p) tr) \<longleftrightarrow>
      (\<exists>nc g' out' s' tr'. t_multinomial ops ?w g = Inr (nc, g') \<and> nc < vocab_size voc \<and>
         net [nc] (Some s) = Inr (out', s') \<and> length tr' = n \<and>
         sampled_trace ops net temperature (out', s', g') tr' \<and>
         (\<forall>p \<in> set tr'. snd p < vocab_size voc) \<and>
         cs = (chars @ [itos voc ! nc]) @ map (\<lambda>p. itos voc ! snd p) tr')"
      (is "?A \<longleftrightarrow> ?B")
    proof
      assume ?A
      then obtain tr where tr: "length tr = Suc n" "sampled_trace ops net temperature (out, s, g) tr"
        "\<forall>p \<in> set tr. snd p < vocab_size voc" "cs = chars @ map (\<lambda>p. itos voc ! snd p) tr"
        by blast
      from tr(1) obtain w i tr' where c: "tr = (w, i) # tr'" "length tr' = n"
        by (cases tr) auto
      from tr(2) c have w: "w = ?w" by simp
      from tr(2) c w obtain g' where m: "t_multinomial ops ?w g = Inr (i, g')"
        and rest: "case net [i] (Some s) of Inl e \<Rightarrow> False
                   | Inr (out', s') \<Rightarrow> sampled_trace ops net temperature (out', s', g') tr'"
        by (cases "t_multinomial ops ?w g") auto
      from rest obtain out' s' where st: "net [i] (Some s) = Inr (out', s')"
        and t': "sampled_trace ops net temperature (out', s', g') tr'"
        by (cases "net [i] (Some s)") auto
      from tr(3,4) c have "i < vocab_size voc" "\<forall>p \<in> set tr'. snd p < vocab_size voc"
        "cs = (chars @ [itos voc ! i]) @ map (\<lambda>p. itos voc ! snd p) tr'"
        by simp_all
      with m st t' c(2) show ?B by blast
    next
      assume ?B
      then obtain nc g' out' s' tr' where b: "t_multinomial ops ?w g = Inr (nc, g')"
        "nc < vocab_size voc" "net [nc] (Some s) = Inr (out', s')" "length tr' = n"
        "sampled_trace ops net temperature (out', s', g') tr'"
        "\<forall>p \<in> set tr'. snd p < vocab_size voc"
        "cs = (chars @ [itos voc ! nc]) @ map (\<lambda>p. itos voc ! snd p) tr'"
        by blast
      have "sampled_trace ops net temperature (out, s, g) ((?w, nc) # tr')"
        using False b by simp
      with b show ?A
        by (intro exI [of _ "(?w, nc) # tr'"]) simp
    qed
    show ?thesis
      unfolding L R
      by (auto simp: itos_get_nat Suc.IH split: sum.splits prod.splits)
  qed
qed

lemma generate_soft_returns:
  assumes "start \<noteq> []" "vocab_ok voc" "net_ok (vocab_size voc) net"
    and "sampler_ok (vocab_size voc) ops temperature"
  shows "\<exists>r. generate_soft ops net voc g sz start temperature = Inr r"
proof -
  from assms(2) have a2: "0 < vocab_size voc" by (simp add: vocab_ok_def)
  from assms(1) have ne: "enc voc start \<noteq> []"
    by (simp add: enc_def encode_def char_tokenizer_def)
  from assms(2) have "\<forall>i \<in> set (enc voc start). i < vocab_size voc"
    by (simp add: enc_in_range)
  with ne have "enc voc start \<noteq> [] \<and> (\<forall>i \<in> set (enc voc start). i < vocab_size voc)" ..
  with assms(3) obtain out s where st: "net (enc voc start) None = Inr (out, s)"
    and o: "length out = length (enc voc start)" "\<forall>row \<in> set out. length row = vocab_size voc"
    unfolding net_ok_def by blast
  from o ne have "out \<noteq> []" by auto
  from generate_soft_loop_ok [OF assms(3) a2 assms(4) this o(2), of "nat sz" "char_tokenizer start" s g]
  obtain cs where "generate_soft_loop ops net voc temperature (nat sz)
      (char_tokenizer start, out, s, g) = Inr cs"
    by blast
  then show ?thesis
    by (simp add: generate_soft_def enc_list_char_tokenizer st)
qed

lemma sum_list_divide: "(\<Sum>w\<leftarrow>ws. w / c) = sum_list ws / (c::real)"
  by (induction ws) (simp_all add: add_divide_distrib)

lemma sum_list_exp_pos: "xs \<noteq> [] \<Longrightarrow> 0 < (\<Sum>x\<leftarrow>xs. exp (f x :: real))"
proof (induction xs)
  case Nil
  then show ?case by simp
next
  case (Cons x xs)
  have "0 \<le> (\<Sum>y\<leftarrow>xs. exp (f y))" by (rule sum_list_nonneg) auto
  moreover have "0 < exp (f x)" by simp
  ultimately have "0 < exp (f x) + (\<Sum>y\<leftarrow>xs. exp (f y))" by (rule add_pos_nonneg [rotated])
  then show ?case by simp
qed

lemma step_law_Some:
  assumes "logits \<noteq> []" "temperature \<noteq> 0"
  shows "step_law logits temperature =
    Some (map (\<lambda>x. exp (x / temperature) / (\<Sum>y\<leftarrow>logits. exp (y / temperature))) logits)"
  using assms by (simp add: step_law_def Let_def comp_def)

lemma step_law_softmax:
  assumes "logits \<noteq> []"
  shows "step_law logits 1 = Some (softmax logits)"
  using assms by (simp add: step_law_Some softmax_def)

lemma step_law_distribution:
  assumes "logits \<noteq> []" "temperature \<noteq> 0" "step_law logits temperature = Some p"
  shows "length p = length logits"
    and "\<forall>i < length logits.
           p ! i = exp (logits ! i / temperature) / (\<Sum>y\<leftarrow>logits. exp (y / temperature)) \<and> 0 < p ! i"
    and "sum_list p = 1"
proof -
  let ?S = "\<Sum>y\<leftarrow>logits. exp (y / temperature)"
  have p: "p = map (\<lambda>x. exp (x / temperature) / ?S) logits"
    using assms by (simp add: step_law_Some)
  have S: "0 < ?S" using assms(1) by (rule sum_list_exp_pos)
  show "length p = length logits" by (simp add: p)
  show "\<forall>i < length logits. p ! i = exp (logits ! i / temperature) / ?S \<and> 0 < p ! i"
    using S by (simp add: p)
  have "sum_list p = (\<Sum>w\<leftarrow>map (\<lambda>x. exp (x / temperature)) logits. w / ?S)"
    by (simp add: p comp_def)
  also have "\<dots> = sum_list (map (\<lambda>x. exp (x / temperature)) logits) / ?S"
    by (rule sum_list_divide)
  also have "\<dots> = 1" using S by simp
  finally show "sum_list p = 1" .
qed

lemma step_law_weights:
  assumes "t_div rops = (/)" "t_exp rops = exp" "logits \<noteq> []" "temperature \<noteq> 0"
  shows "soft_weights rops temperature logits = map (\<lambda>x. exp (x / temperature)) logits"
    and "step_law logits temperature =
      Some (map (\<lambda>w. w / sum_list (soft_weights rops temperature logits))
             (soft_weights rops temperature logits))"
  using assms by (simp_all add: soft_weights_def step_law_def Let_def)

lemma real_ops_draw_one: "t_multinomial real_ops
     [t_exp real_ops (t_div real_ops 0 1), t_exp real_ops (t_div real_ops 0 1),
      t_exp real_ops (t_div real_ops 1 1), t_exp real_ops (t_div real_ops 0 1)] g
   = Inr (g mod 4, Suc g)"
  by (simp add: real_ops_def not_le)

lemma generate_soft_example_one:
  "generate_soft real_ops const_b_net example_vocab 0 2 ''a'' 1 = Inr ''a<unk>a''"
proof -
  have d0: "itos_get example_vocab (int 0) = Inr ''<unk>''"
    and d1: "itos_get example_vocab (int 1) = Inr ''a''"
    by (simp_all add: itos_get_def example_vocab_def UNK_def)
  have "generate_soft_loop real_ops const_b_net example_vocab 1 (Suc (Suc 0))
          (char_tokenizer ''a'', [[0, 0, 1, 0]], (), 0) = Inr [''a'', ''<unk>'', ''a'']"
    using d0 d1 by (simp add: last_row_def real_ops_draw_one const_b_net_step) (simp add: char_tokenizer_def)
  then show ?thesis
    by (simp add: generate_soft_def const_b_net_prime eval_nat_numeral)
qed

text \<open>
  C3. \<open>generate_soft\<close> returns a string exactly when there is a run of \<open>length\<close> sampled
  steps from the state after the seed, and the string is then the seed followed by the
  decoded ids of the run (there is such a run for a non-empty seed, a vocabulary whose
  ids lie in \<open>[0, vocab_size)\<close>, a network that honours the contract of the sequence model
  and a sampler that accepts the weights): at each step the weights handed to the
  sampler are the last logits vector divided by the temperature and exponentiated,
  element by element, and the id the sampler draws is decoded, appended and fed back. Over real arithmetic, at a
  temperature other than 0, these weights are \<open>exp(logits / temperature)\<close>, and the law
  of the draw, index \<open>i\<close> with probability \<open>weight[i] / sum(weights)\<close>, is a probability
  distribution with \<open>p[i] = exp(logits[i] / temperature) / sum(exp(logits / temperature))\<close>;
  at temperature 1 it is the softmax of the logits.
\<close>

theorem generate_soft_sampling:
  "(generate_soft ops net voc g sz start temperature = Inr r \<longleftrightarrow>
      (\<exists>out s tr. net (enc voc start) None = Inr (out, s) \<and> length tr = nat sz \<and>
         sampled_trace ops net temperature (out, s, g) tr \<and>
         (\<forall>p \<in> set tr. snd p < vocab_size voc) \<and>
         r = start @ concat (map (\<lambda>p. itos voc ! snd p) tr))) \<and>
   (start \<noteq> [] \<and> vocab_ok voc \<and> net_ok (vocab_size voc) net \<and>
    sampler_ok (vocab_size voc) ops temperature \<longrightarrow>
      (\<exists>out s tr. net (enc voc start) None = Inr (out, s) \<and> length tr = nat sz \<and>
         sampled_trace ops net temperature (out, s, g) tr \<and>
         generate_soft ops net voc g sz start temperature =
           Inr (start @ concat (map (\<lambda>p. itos voc ! snd p) tr)))) \<and>
   (t_div rops = (/) \<and> t_exp rops = exp \<and> logits \<noteq> [] \<and> t \<noteq> 0 \<longrightarrow>
      soft_weights rops t logits = map (\<lambda>x. exp (x / t)) logits \<and>
      step_law logits t =
        Some (map (\<lambda>w. w / sum_list (soft_weights rops t logits)) (soft_weights rops t logits)) \<and>
      (\<exists>p. step_law logits t = Some p \<and> length p = length logits \<and>
         (\<forall>i < length logits.
            p ! i = exp (logits ! i / t) / (\<Sum>y\<leftarrow>logits. exp (y / t)) \<and> 0 < p ! i) \<and>
         sum_list p = 1)) \<and>
   (logits \<noteq> [] \<longrightarrow> step_law logits 1 = Some (softmax logits))"
proof -
  have trace: "generate_soft ops net voc g sz start temperature = Inr r \<longleftrightarrow>
      (\<exists>out s tr. net (enc voc start) None = Inr (out, s) \<and> length tr = nat sz \<and>
         sampled_trace ops net temperature (out, s, g) tr \<and>
         (\<forall>p \<in> set tr. snd p < vocab_size voc) \<and>
         r = start @ concat (map (\<lambda>p. itos voc ! snd p) tr))" for r
  proof (cases "net (enc voc start) None")
    case (Inl e)
    then show ?thesis by (simp add: generate_soft_def enc_list_char_tokenizer)
  next
    case (Inr st)
    obtain out s where st: "st = (out, s)" by (cases st)
    have "generate_soft ops net voc g sz start temperature = Inr r \<longleftrightarrow>
        (\<exists>cs. generate_soft_loop ops net voc temperature (nat sz) (char_tokenizer start, out, s, g)
                = Inr cs \<and> r = concat cs)"
      using Inr st by (auto simp: generate_soft_def enc_list_char_tokenizer split: sum.splits)
    also have "\<dots> \<longleftrightarrow> (\<exists>tr. length tr = nat sz \<and>
         sampled_trace ops net temperature (out, s, g) tr \<and>
         (\<forall>p \<in> set tr. snd p < vocab_size voc) \<and>
         r = start @ concat (map (\<lambda>p. itos voc ! snd p) tr))"
      by (auto simp: generate_soft_loop_trace concat_char_tokenizer)
    finally show ?thesis using Inr st by simp
  qed
  have returns: "\<exists>out s tr. net (enc voc start) None = Inr (out, s) \<and> length tr = nat sz \<and>
         sampled_trace ops net temperature (out, s, g) tr \<and>
         generate_soft ops net voc g sz start temperature =
           Inr (start @ concat (map (\<lambda>p. itos voc ! snd p) tr))"
    if a: "start \<noteq> [] \<and> vocab_ok voc \<and> net_ok (vocab_size voc) net \<and>
      sampler_ok (vocab_size voc) ops temperature"
  proof -
    from a obtain r0 where r0: "generate_soft ops net voc g sz start temperature = Inr r0"
      using generate_soft_returns [of start voc net ops temperature g sz] by blast
    with trace [of r0] show ?thesis by auto
  qed
  have weights: "soft_weights rops t logits = map (\<lambda>x. exp (x / t)) logits \<and>
      step_law logits t =
        Some (map (\<lambda>w. w / sum_list (soft_weights rops t logits)) (soft_weights rops t logits)) \<and>
      (\<exists>p. step_law logits t = Some p \<and> length p = length logits \<and>
         (\<forall>i < length logits.
            p ! i = exp (logits ! i / t) / (\<Sum>y\<leftarrow>logits. exp (y / t)) \<and> 0 < p ! i) \<and>
         sum_list p = 1)"
    if a: "t_div rops = (/) \<and> t_exp rops = exp \<and> logits \<noteq> [] \<and> t \<noteq> 0"
  proof -
    from a have 1: "soft_weights rops t logits = map (\<lambda>x. exp (x / t)) logits"
      by (simp add: step_law_weights)
    from a have 2: "step_law logits t =
        Some (map (\<lambda>w. w / sum_list (soft_weights rops t logits)) (soft_weights rops t logits))"
      by (simp add: step_law_weights(2))
    from a obtain p where p: "step_law logits t = Some p" by (simp add: step_law_Some)
    from a have l: "logits \<noteq> []" and t: "t \<noteq> 0" by simp_all
    from step_law_distribution [OF l t p] p
    have "\<exists>p. step_law logits t = Some p \<and> length p = length logits \<and>
         (\<forall>i < length logits.
            p ! i = exp (logits ! i / t) / (\<Sum>y\<leftarrow>logits. exp (y / t)) \<and> 0 < p ! i) \<and>
         sum_list p = 1"
      by blast
    with 1 2 show ?thesis by blast
  qed
  have one: "step_law logits 1 = Some (softmax logits)" if "logits \<noteq> []"
    using that by (rule step_law_softmax)
  from trace [of r] returns weights one show ?thesis by blast
qed

text \<open>
  With the model of the example and temperature 1, the run of length 2 from the seed
  \<open>a\<close> is a sampled trace; the logits 0, 0 at temperature 2 have the weights 1, 1 and
  the law 1/2, 1/2, which is also their softmax.
\<close>

theorem generate_soft_sampling_witness:
  "generate_soft real_ops const_b_net example_vocab 0 2 ''a'' 1 = Inr ''a<unk>a'' \<and>
   (\<exists>out s tr. const_b_net (enc example_vocab ''a'') None = Inr (out, s) \<and> length tr = 2 \<and>
      sampled_trace real_ops const_b_net 1 (out, s, 0) tr \<and>
      ''a<unk>a'' = ''a'' @ concat (map (\<lambda>p. itos example_vocab ! snd p) tr)) \<and>
   ''a'' \<noteq> [] \<and> vocab_ok example_vocab \<and> net_ok (vocab_size example_vocab) const_b_net \<and>
   sampler_ok (vocab_size example_vocab) real_ops 1 \<and>
   t_div real_ops = (/) \<and> t_exp real_ops = exp \<and> [0, 0 :: real] \<noteq> [] \<and> (2::real) \<noteq> 0 \<and>
   soft_weights real_ops 2 [0, 0] = [1, 1] \<and>
   step_law [0, 0] 2 = Some [1 / 2, 1 / 2] \<and>
   step_law [0, 0] 1 = Some (softmax [0, 0]) \<and>
   softmax [0, 0] = [1 / 2, 1 / 2]"
proof -
  note T = generate_soft_sampling [where ops = real_ops and net = const_b_net
      and voc = example_vocab and g = 0 and sz = 2 and start = "''a''" and temperature = 1
      and r = "''a<unk>a''" and rops = "real_ops :: (real, nat) torch_ops"
      and logits = "[0, 0]" and t = 2]
  have run: "generate_soft real_ops const_b_net example_vocab 0 2 ''a'' 1 = Inr ''a<unk>a''"
    by (rule generate_soft_example_one)
  have h: "t_div (real_ops :: (real, nat) torch_ops) = (/)" "t_exp (real_ops :: (real, nat) torch_ops) = exp"
    by (simp_all add: real_ops_def)
  have k: "''a'' \<noteq> [] \<and> vocab_ok example_vocab \<and>
      net_ok (vocab_size example_vocab) const_b_net \<and>
      sampler_ok (vocab_size example_vocab) real_ops 1"
    by (simp add: example_vocab_size net_ok_const_b_net sampler_ok_real_ops vocab_ok_example)
  from T k have "\<exists>out s tr. const_b_net (enc example_vocab ''a'') None = Inr (out, s) \<and>
      length tr = 2 \<and> sampled_trace real_ops const_b_net 1 (out, s, 0) tr \<and>
      generate_soft real_ops const_b_net example_vocab 0 2 ''a'' 1 =
        Inr (''a'' @ concat (map (\<lambda>p. itos example_vocab ! snd p) tr))"
    by simp
  with run have tr: "\<exists>out s tr. const_b_net (enc example_vocab ''a'') None = Inr (out, s) \<and>
      length tr = 2 \<and> sampled_trace real_ops const_b_net 1 (out, s, 0) tr \<and>
      ''a<unk>a'' = ''a'' @ concat (map (\<lambda>p. itos example_vocab ! snd p) tr)"
    by simp
  from T h have w: "soft_weights real_ops 2 [0, 0 :: real] = [1, 1]"
    and l: "step_law [0, 0] 2 =
        Some (map (\<lambda>w. w / sum_list (soft_weights real_ops 2 [0, 0])) (soft_weights real_ops 2 [0, 0]))"
    and s: "step_law [0, 0] 1 = Some (softmax [0, 0])"
    by simp_all
  from l w have l2: "step_law [0, 0] 2 = Some [1 / 2, 1 / 2]" by simp
  have sm: "softmax [0, 0] = [1 / 2, 1 / 2]" by (simp add: softmax_def)
  from run tr k h w l2 s sm show ?thesis by simp
qed

section \<open>Properties of the built vocabulary\<close>

subsection \<open>First positions\<close>

lemma first_pos_le: "first_pos xs a \<le> length xs"
  by (induction xs) auto

lemma first_pos_less_iff: "first_pos xs a < length xs \<longleftrightarrow> a \<in> set xs"
  by (induction xs) auto

lemma nth_first_pos: "a \<in> set xs \<Longrightarrow> xs ! first_pos xs a = a"
  by (induction xs) auto

lemma first_pos_eq_imp:
  assumes "a \<in> set xs" "first_pos xs a = first_pos xs b"
  shows "a = b"
proof -
  from assms have "first_pos xs b < length xs" using first_pos_less_iff [of xs a] by simp
  then have "b \<in> set xs" using first_pos_less_iff [of xs b] by simp
  then have "xs ! first_pos xs b = b" by (rule nth_first_pos)
  moreover have "xs ! first_pos xs a = a" using assms(1) by (rule nth_first_pos)
  ultimately show ?thesis using assms(2) by simp
qed

lemma first_pos_distinct_nth:
  "distinct xs \<Longrightarrow> i < length xs \<Longrightarrow> first_pos xs (xs ! i) = i"
proof (induction xs arbitrary: i)
  case Nil
  then show ?case by simp
next
  case (Cons x xs)
  then show ?case by (cases i) auto
qed

lemma map_of_zip_upt:
  "map_of (zip xs [k..<k + length xs]) a =
     (if a \<in> set xs then Some (k + first_pos xs a) else None)"
proof (induction xs arbitrary: k)
  case Nil
  then show ?case by simp
next
  case (Cons x xs)
  have "[k..<k + length (x # xs)] = k # [Suc k..<Suc k + length xs]"
    using upt_conv_Cons [of k "k + Suc (length xs)"] by simp
  then show ?case using Cons.IH [of "Suc k"] by auto
qed

lemma first_pos_filter_mono:
  assumes "\<forall>z \<in> set xs. f z = a \<longrightarrow> P z" "\<forall>z \<in> set xs. f z = b \<longrightarrow> P z"
    and "first_pos (map f xs) a < first_pos (map f xs) b"
  shows "first_pos (map f (filter P xs)) a < first_pos (map f (filter P xs)) b"
  using assms
proof (induction xs)
  case Nil
  then show ?case by simp
next
  case (Cons z xs)
  show ?case
  proof (cases "f z = a")
    case True
    with Cons.prems have "P z" "f z \<noteq> b" by auto
    with True show ?thesis by simp
  next
    case False
    with Cons.prems(3) have nb: "f z \<noteq> b" by (auto split: if_splits)
    with False Cons.prems have "first_pos (map f xs) a < first_pos (map f xs) b" by simp
    with Cons have "first_pos (map f (filter P xs)) a < first_pos (map f (filter P xs)) b"
      by simp
    with False nb show ?thesis by simp
  qed
qed

subsection \<open>The counter\<close>

lemma keys_counter_add:
  "map fst (counter_add c s) = (if s \<in> fst ` set c then map fst c else map fst c @ [s])"
  by (induction c s rule: counter_add.induct) (auto simp: image_iff)

lemma map_of_counter_add:
  "map_of (counter_add c s) =
     (map_of c)(s \<mapsto> (case map_of c s of None \<Rightarrow> 1 | Some n \<Rightarrow> Suc n))"
  by (induction c s rule: counter_add.induct) (auto simp: fun_eq_iff)

lemma distinct_counter_update:
  "distinct (map fst c) \<Longrightarrow> distinct (map fst (counter_update c toks))"
  unfolding counter_update_def
  by (induction toks arbitrary: c) (simp_all add: keys_counter_add image_iff)

lemma keys_set_counter_add: "fst ` set (counter_add c s) = insert s (fst ` set c)"
  by (induction c s rule: counter_add.induct) auto

lemma keys_counter_update:
  "fst ` set (counter_update c toks) = fst ` set c \<union> set toks"
  unfolding counter_update_def
  by (induction toks arbitrary: c) (simp_all add: keys_set_counter_add)

lemma map_of_counter_update:
  "map_of (counter_update c toks) s =
     (case map_of c s of
        None \<Rightarrow> if s \<in> set toks then Some (count_list toks s) else None
      | Some n \<Rightarrow> Some (n + count_list toks s))"
  unfolding counter_update_def
proof (induction toks arbitrary: c)
  case Nil
  then show ?case by (simp split: option.splits)
next
  case (Cons x toks)
  show ?case
    by (simp add: Cons.IH map_of_counter_add split: option.splits)
qed

lemma count_corpus_eq:
  "count_corpus tokenizer ds = counter_update [] (corpus_symbols tokenizer ds)"
proof -
  have "foldl (\<lambda>counter (label, line). counter_update counter (tokenizer line)) c ds =
        counter_update c (corpus_symbols tokenizer ds)" for c
    by (induction ds arbitrary: c) (auto simp: corpus_symbols_def counter_update_def)
  then show ?thesis by (simp add: count_corpus_def)
qed

subsection \<open>Sorting by count\<close>

lemma entry_at_first_pos:
  assumes "distinct (map fst c)" "(s, n) \<in> set c" "set ys = set c"
  shows "ys ! first_pos (map fst ys) s = (s, n)"
proof -
  let ?i = "first_pos (map fst ys) s"
  have sin: "s \<in> set (map fst ys)" using assms(2,3) by force
  then have i: "?i < length ys" using first_pos_less_iff [of "map fst ys" s] by simp
  from sin have "map fst ys ! ?i = s" by (rule nth_first_pos)
  with i have f: "fst (ys ! ?i) = s" by simp
  from i have "ys ! ?i \<in> set c" using assms(3) nth_mem by blast
  then have "(s, snd (ys ! ?i)) \<in> set c" using f by (metis prod.collapse)
  with assms(1,2) have "snd (ys ! ?i) = n" by (metis eq_key_imp_eq_value)
  with f show ?thesis by (metis prod.collapse)
qed

lemma sort_by_count_descending:
  assumes "distinct (map fst c)" "(s, n) \<in> set c" "(t, m) \<in> set c" "m < n"
  shows "first_pos (map fst (sort_key by_count c)) s < first_pos (map fst (sort_key by_count c)) t"
proof (rule ccontr)
  let ?ys = "sort_key by_count c"
  let ?i = "first_pos (map fst ?ys) s" and ?j = "first_pos (map fst ?ys) t"
  assume "\<not> ?i < ?j"
  then have ji: "?j \<le> ?i" by simp
  have "s \<in> set (map fst ?ys)" using assms(2) by force
  then have i: "?i < length (map by_count ?ys)"
    using first_pos_less_iff [of "map fst ?ys" s] by simp
  have "sorted (map by_count ?ys)" by (rule sorted_sort_key)
  from this ji i have "map by_count ?ys ! ?j \<le> map by_count ?ys ! ?i" by (rule sorted_nth_mono)
  moreover have "?ys ! ?i = (s, n)" using assms(1,2) by (rule entry_at_first_pos) simp
  moreover have "?ys ! ?j = (t, m)" using assms(1,3) by (rule entry_at_first_pos) simp
  ultimately have "- int m \<le> - int n" using i ji by (simp add: by_count_def)
  with assms(4) show False by simp
qed

lemma sort_by_count_stable:
  assumes "distinct (map fst c)" "(s, n) \<in> set c" "(t, n) \<in> set c"
    and "first_pos (map fst c) s < first_pos (map fst c) t"
  shows "first_pos (map fst (sort_key by_count c)) s < first_pos (map fst (sort_key by_count c)) t"
proof (rule ccontr)
  let ?ys = "sort_key by_count c"
  let ?P = "\<lambda>y. by_count y = - int n"
  let ?i = "first_pos (map fst ?ys) s" and ?j = "first_pos (map fst ?ys) t"
  have Ps: "\<forall>z \<in> set c. fst z = s \<longrightarrow> ?P z"
  proof (intro ballI impI)
    fix z assume "z \<in> set c" "fst z = s"
    then have "(s, snd z) \<in> set c" by (metis prod.collapse)
    with assms(1,2) have "n = snd z" by (metis eq_key_imp_eq_value)
    then show "?P z" by (simp add: by_count_def case_prod_unfold)
  qed
  have Pt: "\<forall>z \<in> set c. fst z = t \<longrightarrow> ?P z"
  proof (intro ballI impI)
    fix z assume "z \<in> set c" "fst z = t"
    then have "(t, snd z) \<in> set c" by (metis prod.collapse)
    with assms(1,3) have "n = snd z" by (metis eq_key_imp_eq_value)
    then show "?P z" by (simp add: by_count_def case_prod_unfold)
  qed
  have st: "filter ?P ?ys = filter ?P c" by (rule sort_key_stable)
  from Ps Pt assms(4)
  have lt: "first_pos (map fst (filter ?P c)) s < first_pos (map fst (filter ?P c)) t"
    by (rule first_pos_filter_mono)
  assume "\<not> ?i < ?j"
  moreover have "?i \<noteq> ?j"
  proof
    assume e: "?i = ?j"
    have "s \<in> set (map fst ?ys)" using assms(2) by force
    from this e have "s = t" by (rule first_pos_eq_imp)
    with assms(4) show False by simp
  qed
  ultimately have "?j < ?i" by simp
  moreover have "\<forall>z \<in> set ?ys. fst z = t \<longrightarrow> ?P z" using Pt by simp
  moreover have "\<forall>z \<in> set ?ys. fst z = s \<longrightarrow> ?P z" using Ps by simp
  ultimately
  have "first_pos (map fst (filter ?P ?ys)) t < first_pos (map fst (filter ?P ?ys)) s"
    by (intro first_pos_filter_mono)
  with lt show False unfolding st by simp
qed

lemma itos_Vocab: "itos (Vocab c) = specials @ map fst (sort_key by_count (counted c))"
  by (simp add: Vocab_def counted_def Let_def)

lemma stoi_Vocab:
  "stoi (Vocab c) a =
     (if a \<in> set (itos (Vocab c)) then Some (first_pos (itos (Vocab c)) a) else None)"
proof -
  have "stoi (Vocab c) = map_of (zip (itos (Vocab c)) [0..<0 + length (itos (Vocab c))])"
    by (simp add: Vocab_def Let_def)
  then show ?thesis by (simp only: map_of_zip_upt) simp
qed

lemma set_counted: "set (counted c) = {p \<in> set c. fst p \<notin> set specials}"
  by (auto simp: counted_def)

lemma keys_counted: "fst ` set (counted c) = fst ` set c - set specials"
  by (force simp: set_counted)

lemma distinct_counted:
  assumes "distinct (map fst c)"
  shows "distinct (map fst (counted c))"
proof -
  let ?f = "filter (\<lambda>(s, n). s \<notin> set specials) c"
  have "distinct (map fst ?f)" using assms by (rule distinct_map_filter)
  then have "distinct ?f \<and> inj_on fst (set ?f)" by (simp add: distinct_map)
  then show ?thesis by (simp add: counted_def distinct_map)
qed

lemma sorted_counted: "sorted (map fst (counted c))"
  by (simp add: counted_def)

lemma sorted_first_pos:
  assumes "sorted xs" "a \<in> set xs" "b \<in> set xs" "a < b"
  shows "first_pos xs a < first_pos xs b"
proof (rule ccontr)
  assume "\<not> first_pos xs a < first_pos xs b"
  then have ji: "first_pos xs b \<le> first_pos xs a" by simp
  have i: "first_pos xs a < length xs" using assms(2) first_pos_less_iff [of xs a] by simp
  from assms(1) ji i have "xs ! first_pos xs b \<le> xs ! first_pos xs a" by (rule sorted_nth_mono)
  then have "b \<le> a" using assms(2,3) by (simp add: nth_first_pos)
  with assms(4) show False by simp
qed

lemma set_itos_Vocab: "set (itos (Vocab c)) = set specials \<union> fst ` set c"
  by (auto simp: itos_Vocab keys_counted)

lemma distinct_itos_Vocab:
  assumes "distinct (map fst c)"
  shows "distinct (itos (Vocab c))"
proof -
  have d: "distinct (map fst (counted c))" using assms by (rule distinct_counted)
  then have "distinct (counted c) \<and> inj_on fst (set (counted c))" by (simp add: distinct_map)
  then have "distinct (map fst (sort_key by_count (counted c)))" by (simp add: distinct_map)
  moreover have "set specials \<inter> fst ` set (counted c) = {}" by (auto simp: keys_counted)
  moreover have "distinct specials" by (simp add: specials_def UNK_def PAD_def)
  ultimately show ?thesis by (simp add: itos_Vocab)
qed

lemma counter_entry:
  assumes "s \<in> set toks"
  shows "(s, count_list toks s) \<in> set (counter_update [] toks)"
proof -
  have "map_of (counter_update [] toks) s = Some (count_list toks s)"
    using assms by (simp add: map_of_counter_update)
  then show ?thesis by (rule map_of_SomeD)
qed

lemma distinct_counter: "distinct (map fst (counter_update [] toks))"
  by (rule distinct_counter_update) simp

lemma keys_counter: "fst ` set (counter_update [] toks) = set toks"
  by (simp add: keys_counter_update)

lemma counted_entry:
  assumes "s \<in> set toks" "s \<notin> set specials"
  shows "(s, count_list toks s) \<in> set (counted (counter_update [] toks))"
  using assms by (simp add: set_counted counter_entry)

lemma first_pos_specials_append:
  assumes "s \<notin> set specials"
  shows "first_pos (specials @ xs) s = 2 + first_pos xs s"
  using assms by (auto simp: specials_def)

lemma stoi_get_Vocab_symbol:
  assumes "s \<in> set toks" "s \<notin> set specials"
  shows "stoi_get (Vocab (counter_update [] toks)) s =
           2 + first_pos (map fst (sort_key by_count (counted (counter_update [] toks)))) s"
proof -
  have "s \<in> set (itos (Vocab (counter_update [] toks)))"
    using assms(1) by (simp add: set_itos_Vocab keys_counter)
  then have "stoi_get (Vocab (counter_update [] toks)) s =
      first_pos (itos (Vocab (counter_update [] toks))) s"
    by (simp add: stoi_get_def stoi_Vocab)
  also have "\<dots> = 2 + first_pos (map fst (sort_key by_count (counted (counter_update [] toks)))) s"
    unfolding itos_Vocab using assms(2) by (rule first_pos_specials_append)
  finally show ?thesis .
qed

lemma round_trip_Vocab:
  assumes "s \<in> set (itos (Vocab c))"
  shows "stoi (Vocab c) s = Some (first_pos (itos (Vocab c)) s) \<and>
         itos_get (Vocab c) (int (first_pos (itos (Vocab c)) s)) = Inr s"
proof -
  have "first_pos (itos (Vocab c)) s < length (itos (Vocab c))"
    using assms first_pos_less_iff [of "itos (Vocab c)" s] by simp
  moreover have "itos (Vocab c) ! first_pos (itos (Vocab c)) s = s"
    using assms by (rule nth_first_pos)
  ultimately show ?thesis
    using assms by (simp add: stoi_Vocab itos_get_def)
qed

subsection \<open>The vocabulary of a corpus\<close>

lemma build_eq: "build tokenizer ds = Vocab (counter_update [] (corpus_symbols tokenizer ds))"
  by (simp add: build_def count_corpus_eq)

lemma set_itos_build:
  "set (itos (build tokenizer ds)) = set specials \<union> set (corpus_symbols tokenizer ds)"
  by (simp add: build_eq set_itos_Vocab keys_counter)

lemma distinct_itos_build: "distinct (itos (build tokenizer ds))"
  by (simp add: build_eq distinct_itos_Vocab distinct_counter)

lemma stoi_get_build:
  assumes "s \<in> set (corpus_symbols tokenizer ds)" "s \<notin> set specials"
  shows "stoi_get (build tokenizer ds) s =
    2 + first_pos (map fst (sort_key by_count (counted (counter_update [] (corpus_symbols tokenizer ds))))) s"
  unfolding build_eq using assms by (rule stoi_get_Vocab_symbol)

lemma build_more_frequent:
  assumes "s \<in> set (corpus_symbols tokenizer ds)" "s \<notin> set specials"
    and "t \<in> set (corpus_symbols tokenizer ds)" "t \<notin> set specials"
    and "count_list (corpus_symbols tokenizer ds) t < count_list (corpus_symbols tokenizer ds) s"
  shows "stoi_get (build tokenizer ds) s < stoi_get (build tokenizer ds) t"
proof -
  let ?toks = "corpus_symbols tokenizer ds"
  let ?c = "counted (counter_update [] ?toks)"
  have d: "distinct (map fst ?c)" by (simp add: distinct_counted distinct_counter)
  have "(s, count_list ?toks s) \<in> set ?c" "(t, count_list ?toks t) \<in> set ?c"
    using assms by (simp_all add: counted_entry)
  with d have "first_pos (map fst (sort_key by_count ?c)) s < first_pos (map fst (sort_key by_count ?c)) t"
    using assms(5) by (rule sort_by_count_descending)
  then show ?thesis using assms by (simp add: stoi_get_build)
qed

lemma build_tie:
  assumes "s \<in> set (corpus_symbols tokenizer ds)" "s \<notin> set specials"
    and "t \<in> set (corpus_symbols tokenizer ds)" "t \<notin> set specials"
    and "count_list (corpus_symbols tokenizer ds) s = count_list (corpus_symbols tokenizer ds) t"
    and "s < t"
  shows "stoi_get (build tokenizer ds) s < stoi_get (build tokenizer ds) t"
proof -
  let ?toks = "corpus_symbols tokenizer ds"
  let ?c = "counted (counter_update [] ?toks)"
  have d: "distinct (map fst ?c)" by (simp add: distinct_counted distinct_counter)
  have e1: "(s, count_list ?toks s) \<in> set ?c"
    using assms(1,2) by (rule counted_entry)
  have "(t, count_list ?toks t) \<in> set ?c"
    using assms(3,4) by (rule counted_entry)
  then have e2: "(t, count_list ?toks s) \<in> set ?c"
    by (simp only: assms(5))
  have "s \<in> set (map fst ?c)" "t \<in> set (map fst ?c)"
    using assms(1-4) by (simp_all add: keys_counted keys_counter)
  with sorted_counted have "first_pos (map fst ?c) s < first_pos (map fst ?c) t"
    using assms(6) by (rule sorted_first_pos)
  with d e1 e2 have "first_pos (map fst (sort_key by_count ?c)) s < first_pos (map fst (sort_key by_count ?c)) t"
    by (rule sort_by_count_stable)
  then show ?thesis using assms by (simp add: stoi_get_build)
qed

lemma example_corpus_symbols:
  "corpus_symbols char_tokenizer example_dataset = [''b'', ''a'', ''b'', '' '', ''a'']"
  by (simp add: corpus_symbols_def example_dataset_def char_tokenizer_def)

lemma example_itos:
  "itos (build char_tokenizer example_dataset) = [''<unk>'', ''<pad>'', ''a'', ''b'', '' '']"
  by code_simp

text \<open>
  C9. For every symbol \<open>s\<close> of the corpus the vocabulary was built from, \<open>stoi\<close> has an
  id for \<open>s\<close>, and decoding that id gives \<open>s\<close> again: \<open>itos[stoi[s]] = s\<close>.
\<close>

theorem build_round_trip:
  "\<forall>s \<in> set (corpus_symbols tokenizer train_dataset).
     \<exists>i. stoi (build tokenizer train_dataset) s = Some i \<and>
         stoi_get (build tokenizer train_dataset) s = i \<and>
         itos_get (build tokenizer train_dataset) (int i) = Inr s"
proof
  fix s assume "s \<in> set (corpus_symbols tokenizer train_dataset)"
  then have "s \<in> set (itos (build tokenizer train_dataset))" by (simp add: set_itos_build)
  then have "s \<in> set (itos (Vocab (counter_update [] (corpus_symbols tokenizer train_dataset))))"
    by (simp add: build_eq)
  from round_trip_Vocab [OF this]
  show "\<exists>i. stoi (build tokenizer train_dataset) s = Some i \<and>
         stoi_get (build tokenizer train_dataset) s = i \<and>
         itos_get (build tokenizer train_dataset) (int i) = Inr s"
    by (simp add: build_eq stoi_get_def)
qed

text \<open>
  In the corpus of the two lines \<open>ba\<close> and \<open>b a\<close> the symbol a has an id that decodes
  to a.
\<close>

theorem build_round_trip_witness:
  "''a'' \<in> set (corpus_symbols char_tokenizer example_dataset) \<and>
   (\<exists>i. stoi (build char_tokenizer example_dataset) ''a'' = Some i \<and>
        stoi_get (build char_tokenizer example_dataset) ''a'' = i \<and>
        itos_get (build char_tokenizer example_dataset) (int i) = Inr ''a'')"
proof -
  have m: "''a'' \<in> set (corpus_symbols char_tokenizer example_dataset)"
    by (simp add: example_corpus_symbols)
  with build_round_trip [of char_tokenizer example_dataset] show ?thesis
    by blast
qed

text \<open>
  C8, as the code has it. The vocabulary built from a corpus and a tokenizer has the
  unknown symbol \<open><unk>\<close> at id 0 and the padding symbol \<open><pad>\<close> at id 1, whether or not
  they occur in the corpus; it maps every symbol outside the corpus (other than the
  padding symbol) to id 0 and every other symbol of the corpus to an id from 2 on; it
  uses exactly the ids of the dense range \<open>[0, vocab_size)\<close>; it gives a more frequent
  symbol a lower id, and among symbols of equal frequency it gives the lower id to the
  symbol that comes first in the order of strings (alphabetically, by character code).
\<close>

theorem build_ids:
  "itos_get (build tokenizer train_dataset) 0 = Inr UNK \<and>
   itos_get (build tokenizer train_dataset) 1 = Inr PAD \<and>
   stoi (build tokenizer train_dataset) UNK = Some 0 \<and>
   stoi (build tokenizer train_dataset) PAD = Some 1 \<and>
   (\<forall>s. s \<notin> set (corpus_symbols tokenizer train_dataset) \<and> s \<noteq> PAD \<longrightarrow>
        stoi_get (build tokenizer train_dataset) s = 0) \<and>
   (\<forall>s \<in> set (corpus_symbols tokenizer train_dataset).
        s \<notin> set specials \<longrightarrow> 2 \<le> stoi_get (build tokenizer train_dataset) s) \<and>
   (\<forall>s i. stoi (build tokenizer train_dataset) s = Some i \<longrightarrow>
        i < vocab_size (build tokenizer train_dataset)) \<and>
   (\<forall>i < vocab_size (build tokenizer train_dataset).
        \<exists>s. stoi (build tokenizer train_dataset) s = Some i) \<and>
   (\<forall>s \<in> set (corpus_symbols tokenizer train_dataset).
    \<forall>t \<in> set (corpus_symbols tokenizer train_dataset).
        s \<notin> set specials \<and> t \<notin> set specials \<and>
        count_list (corpus_symbols tokenizer train_dataset) t
          < count_list (corpus_symbols tokenizer train_dataset) s \<longrightarrow>
        stoi_get (build tokenizer train_dataset) s < stoi_get (build tokenizer train_dataset) t) \<and>
   (\<forall>s \<in> set (corpus_symbols tokenizer train_dataset).
    \<forall>t \<in> set (corpus_symbols tokenizer train_dataset).
        s \<notin> set specials \<and> t \<notin> set specials \<and>
        count_list (corpus_symbols tokenizer train_dataset) s
          = count_list (corpus_symbols tokenizer train_dataset) t \<and> s < t \<longrightarrow>
        stoi_get (build tokenizer train_dataset) s < stoi_get (build tokenizer train_dataset) t)"
proof -
  let ?toks = "corpus_symbols tokenizer train_dataset"
  let ?c = "counter_update [] ?toks"
  let ?V = "build tokenizer train_dataset"
  let ?K = "map fst (sort_key by_count (counted ?c))"
  have V: "?V = Vocab ?c" by (rule build_eq)
  have it: "itos ?V = UNK # PAD # ?K" by (simp add: V itos_Vocab specials_def)
  have ne: "UNK \<noteq> PAD" by (simp add: UNK_def PAD_def)
  have 1: "itos_get ?V 0 = Inr UNK" "itos_get ?V 1 = Inr PAD"
    by (simp_all add: itos_get_def it)
  have 2: "stoi ?V UNK = Some 0" "stoi ?V PAD = Some 1"
    using ne by (simp_all add: V stoi_Vocab) (simp_all add: itos_Vocab specials_def)
  have 3: "stoi_get ?V s = 0" if "s \<notin> set ?toks \<and> s \<noteq> PAD" for s
  proof (cases "s = UNK")
    case True
    then show ?thesis using 2 by (simp add: stoi_get_def)
  next
    case False
    with that have "s \<notin> set (itos ?V)" by (simp add: set_itos_build specials_def)
    then show ?thesis by (simp add: stoi_get_def V stoi_Vocab)
  qed
  have 4: "2 \<le> stoi_get ?V s" if "s \<in> set ?toks" "s \<notin> set specials" for s
    using that by (simp add: stoi_get_build)
  have 5: "i < vocab_size ?V" if "stoi ?V s = Some i" for s i
  proof -
    from that have "s \<in> set (itos ?V)" and "i = first_pos (itos ?V) s"
      by (auto simp: V stoi_Vocab split: if_splits)
    then show ?thesis
      using first_pos_less_iff [of "itos ?V" s] by (simp add: vocab_size_def)
  qed
  have 6: "\<exists>s. stoi ?V s = Some i" if "i < vocab_size ?V" for i
  proof -
    from that have i: "i < length (itos ?V)" by (simp add: vocab_size_def)
    have "distinct (itos ?V)" by (rule distinct_itos_build)
    from this i have "first_pos (itos ?V) (itos ?V ! i) = i" by (rule first_pos_distinct_nth)
    moreover have "itos ?V ! i \<in> set (itos ?V)" using i by simp
    ultimately have "stoi ?V (itos ?V ! i) = Some i"
      unfolding V by (simp add: stoi_Vocab)
    then show ?thesis ..
  qed
  have 7: "stoi_get ?V s < stoi_get ?V t"
    if "s \<in> set ?toks" "t \<in> set ?toks"
      "s \<notin> set specials \<and> t \<notin> set specials \<and> count_list ?toks t < count_list ?toks s" for s t
    using that by (simp add: build_more_frequent)
  have 8: "stoi_get ?V s < stoi_get ?V t"
    if "s \<in> set ?toks" "t \<in> set ?toks"
      "s \<notin> set specials \<and> t \<notin> set specials \<and> count_list ?toks s = count_list ?toks t \<and> s < t"
    for s t
    using that by (simp add: build_tie)
  show ?thesis
    using 1 2 3 4 5 6 7 8 by blast
qed

text \<open>
  In the corpus of the two lines \<open>ba\<close> and \<open>b a\<close> the symbols a and b occur twice and
  the space once, a comes before b in the order of strings, and z does not occur: a
  gets a lower id than b, a a lower id than the space, and z the id 0.
\<close>

theorem build_ids_witness:
  "''z'' \<notin> set (corpus_symbols char_tokenizer example_dataset) \<and> ''z'' \<noteq> PAD \<and>
   ''a'' \<in> set (corpus_symbols char_tokenizer example_dataset) \<and>
   ''b'' \<in> set (corpus_symbols char_tokenizer example_dataset) \<and>
   '' '' \<in> set (corpus_symbols char_tokenizer example_dataset) \<and>
   ''a'' \<notin> set specials \<and> ''b'' \<notin> set specials \<and> '' '' \<notin> set specials \<and>
   count_list (corpus_symbols char_tokenizer example_dataset) '' ''
     < count_list (corpus_symbols char_tokenizer example_dataset) ''a'' \<and>
   count_list (corpus_symbols char_tokenizer example_dataset) ''a''
     = count_list (corpus_symbols char_tokenizer example_dataset) ''b'' \<and>
   (''a'' :: string) < ''b'' \<and>
   itos_get (build char_tokenizer example_dataset) 0 = Inr UNK \<and>
   itos_get (build char_tokenizer example_dataset) 1 = Inr PAD \<and>
   stoi_get (build char_tokenizer example_dataset) ''z'' = 0 \<and>
   2 \<le> stoi_get (build char_tokenizer example_dataset) ''a'' \<and>
   stoi_get (build char_tokenizer example_dataset) ''a''
     < stoi_get (build char_tokenizer example_dataset) '' '' \<and>
   stoi_get (build char_tokenizer example_dataset) ''a''
     < stoi_get (build char_tokenizer example_dataset) ''b''"
proof -
  let ?toks = "corpus_symbols char_tokenizer example_dataset"
  let ?V = "build char_tokenizer example_dataset"
  have z: "''z'' \<notin> set ?toks \<and> ''z'' \<noteq> PAD" by (simp add: example_corpus_symbols PAD_def)
  have a: "''a'' \<in> set ?toks" and b: "''b'' \<in> set ?toks" and sp: "'' '' \<in> set ?toks"
    by (simp_all add: example_corpus_symbols)
  have ns: "''a'' \<notin> set specials" "''b'' \<notin> set specials" "'' '' \<notin> set specials"
    by (simp_all add: specials_def UNK_def PAD_def)
  have c1: "count_list ?toks '' '' < count_list ?toks ''a''"
    and c2: "count_list ?toks ''a'' = count_list ?toks ''b''"
    by (simp_all add: example_corpus_symbols)
  have lt: "(''a'' :: string) < ''b''" by simp
  note T = build_ids [of char_tokenizer example_dataset]
  from T have 1: "itos_get ?V 0 = Inr UNK" "itos_get ?V 1 = Inr PAD" by blast+
  from T z have 2: "stoi_get ?V ''z'' = 0" by blast
  from T a ns(1) have 3: "2 \<le> stoi_get ?V ''a''" by blast
  from T a sp ns c1 have 4: "stoi_get ?V ''a'' < stoi_get ?V '' ''" by blast
  from T a b ns c2 lt have 5: "stoi_get ?V ''a'' < stoi_get ?V ''b''" by blast
  from z a b sp ns c1 c2 lt 1 2 3 4 5 show ?thesis by blast
qed

text \<open>
  C8 as written fails on ties: in the corpus of the two lines \<open>ba\<close> and \<open>b a\<close> the
  symbols b and a occur equally often and b is seen first, but a gets id 2 and b id 3;
  no symbol of the corpus gets id 1, which is reserved as well.
\<close>

theorem build_first_seen_counterexample:
  "''b'' \<in> set (corpus_symbols char_tokenizer example_dataset) \<and>
   ''a'' \<in> set (corpus_symbols char_tokenizer example_dataset) \<and>
   count_list (corpus_symbols char_tokenizer example_dataset) ''b''
     = count_list (corpus_symbols char_tokenizer example_dataset) ''a'' \<and>
   first_pos (corpus_symbols char_tokenizer example_dataset) ''b''
     < first_pos (corpus_symbols char_tokenizer example_dataset) ''a'' \<and>
   itos (build char_tokenizer example_dataset) = [''<unk>'', ''<pad>'', ''a'', ''b'', '' ''] \<and>
   stoi_get (build char_tokenizer example_dataset) ''a'' = 2 \<and>
   stoi_get (build char_tokenizer example_dataset) ''b'' = 3 \<and>
   \<not> stoi_get (build char_tokenizer example_dataset) ''b''
       < stoi_get (build char_tokenizer example_dataset) ''a''"
proof -
  have "stoi_get (build char_tokenizer example_dataset) ''a'' = 2"
    and "stoi_get (build char_tokenizer example_dataset) ''b'' = 3"
    by code_simp+
  then show ?thesis
    by (simp add: example_corpus_symbols example_itos)
qed

end
